theory Spec2Isabelle
  imports Complex_Main "HOL-Library.Product_Lexorder" "HOL-Library.List_Lexorder"
    "HOL-Library.Char_ord" "HOL-Library.Multiset"
begin

section \<open>Data model of the monitoring pipeline\<close>

text \<open>
  The pipeline of \<^verbatim>\<open>src/data_pipeline.py\<close> works on a pandas data frame of loans.
  A row of the frame is a record; a column is a field. 64-bit floats are idealised as
  real numbers (so \<^verbatim>\<open>np.log\<close> is \<open>ln\<close>) except where a result is rounded to
  decimals, see \<open>py_round\<close>; a null cell (NaN) of a feature column is \<open>None\<close>. A timestamp is a calendar date (year, month, day), ordered
  lexicographically as pandas orders timestamps.
\<close>

type_synonym timestamp = "int \<times> int \<times> int"

datatype feature = Loan_amnt | Int_rate | Annual_inc | Dti

datatype gran = Month | Quarter

datatype error = KeyError | IndexError | ValueError

record loan =
  issue_d :: timestamp
  year :: int
  grade :: string
  loan_amnt :: "real option"
  int_rate :: "real option"
  annual_inc :: "real option"
  dti :: "real option"
  default_flag :: bool
  pred_default_prob :: real

text \<open>Column access \<^verbatim>\<open>df[feature]\<close> for the four drift features.\<close>

fun col :: "feature \<Rightarrow> loan \<Rightarrow> real option" where
  "col Loan_amnt r = loan_amnt r"
| "col Int_rate r = int_rate r"
| "col Annual_inc r = annual_inc r"
| "col Dti r = dti r"

definition TRAIN_YEARS :: "int list" where
  "TRAIN_YEARS = [2012, 2013, 2014]"


definition PSI_N_BINS :: nat where
  "PSI_N_BINS = 10"

text \<open>
  \<^verbatim>\<open>load_and_clean\<close>, lines 52 and 55: the monthly cohort is the first day of the month
  of \<^verbatim>\<open>issue_d\<close>, the quarterly cohort the first day of its calendar quarter. Both are
  timestamps, so the key of a quarter is also the key of the quarter's first month.
\<close>

definition cohort :: "loan \<Rightarrow> timestamp" where
  "cohort r = (case issue_d r of (y, m, d) \<Rightarrow> (y, m, 1))"

definition cohort_q :: "loan \<Rightarrow> timestamp" where
  "cohort_q r = (case issue_d r of (y, m, d) \<Rightarrow> (y, 3 * ((m - 1) div 3) + 1, 1))"

text \<open>
  \<^verbatim>\<open>df.groupby(key)\<close>: one group per distinct key, in increasing key order, each group
  holding the rows of that key in frame order.
\<close>

definition groupby :: "('a \<Rightarrow> 'k::linorder) \<Rightarrow> 'a list \<Rightarrow> ('k \<times> 'a list) list" where
  "groupby key df = map (\<lambda>k. (k, filter (\<lambda>r. key r = k) df)) (sort (remdups (map key df)))"

definition nunique :: "'a list \<Rightarrow> nat" where
  "nunique xs = length (remdups xs)"

text \<open>
  \<^verbatim>\<open>round(x, n)\<close> and \<^verbatim>\<open>Series.round(n)\<close> give the multiple of \<open>10\<^sup>-\<^sup>n\<close> nearest to the
  float. Where the real value is not a decimal tie this is the nearest multiple of
  the real value. At a decimal tie (a 5 in decimal \<open>n + 1\<close> and nothing after it) the
  two neighbours are equally near the real value and the binary float decides: the
  double that stands for the value lies above or below the tie, and the code goes to
  that side. The model does not fix the side. It takes it from an oracle
  \<open>up :: ties\<close>, a parameter of every function that rounds; what is proved holds for
  every oracle. Python's scalar \<^verbatim>\<open>round\<close> and numpy's array \<^verbatim>\<open>round\<close> are two
  algorithms, so functions that use both take two oracles.
\<close>

type_synonym ties = "real \<Rightarrow> nat \<Rightarrow> bool"

definition round_nearest :: "bool \<Rightarrow> real \<Rightarrow> int" where
  "round_nearest tie_up y =
     (let f = \<lfloor>y\<rfloor>; d = y - of_int f
      in if d < 1 / 2 then f else if 1 / 2 < d then f + 1 else if tie_up then f + 1 else f)"

definition py_round :: "ties \<Rightarrow> real \<Rightarrow> nat \<Rightarrow> real" where
  "py_round up x n = of_int (round_nearest (up x n) (x * 10 ^ n)) / 10 ^ n"

text \<open>Loops that append rows to \<^verbatim>\<open>results\<close>; an exception in the body ends the loop.\<close>

fun collect :: "('a \<Rightarrow> error + 'b list) \<Rightarrow> 'a list \<Rightarrow> error + 'b list" where
  "collect f [] = Inr []"
| "collect f (x # xs) =
     (case f x of
        Inl e \<Rightarrow> Inl e
      | Inr ys \<Rightarrow> (case collect f xs of Inl e \<Rightarrow> Inl e | Inr zs \<Rightarrow> Inr (ys @ zs)))"

section \<open>Discrimination metric: AUC per cohort\<close>

text \<open>
  \<^verbatim>\<open>sklearn.metrics.roc_auc_score\<close> for binary labels, in its rank-based form: the share
  of (positive, negative) pairs that the score orders correctly, a tied pair counting
  one half. With a single class present the library raises \<^verbatim>\<open>ValueError\<close>.
\<close>

definition pair_score :: "real \<Rightarrow> real \<Rightarrow> real" where
  "pair_score p n = (if n < p then 1 else if p = n then 1 / 2 else 0)"

definition pos_scores :: "bool list \<Rightarrow> real list \<Rightarrow> real list" where
  "pos_scores y_true y_score = map snd (filter fst (zip y_true y_score))"

definition neg_scores :: "bool list \<Rightarrow> real list \<Rightarrow> real list" where
  "neg_scores y_true y_score = map snd (filter (\<lambda>ys. \<not> fst ys) (zip y_true y_score))"

definition pair_total :: "real list \<Rightarrow> real list \<Rightarrow> real" where
  "pair_total pos neg = (\<Sum>p\<leftarrow>pos. \<Sum>n\<leftarrow>neg. pair_score p n)"

definition roc_auc_score :: "bool list \<Rightarrow> real list \<Rightarrow> error + real" where
  "roc_auc_score y_true y_score =
     (let pos = pos_scores y_true y_score; neg = neg_scores y_true y_score
      in if pos = [] \<or> neg = [] then Inl ValueError
         else Inr (pair_total pos neg / (real (length pos) * real (length neg))))"

text \<open>\<^verbatim>\<open>group["default_flag"].mean()\<close> of the 0/1 column.\<close>

definition flag_mean :: "bool list \<Rightarrow> real" where
  "flag_mean ys = real (length (filter (\<lambda>y. y) ys)) / real (length ys)"

record metric_row =
  period :: timestamp
  auc :: real
  n_loans :: nat
  default_rate :: real

record cohort_row = metric_row +
  granularity :: gran

record cohort_row_out = cohort_row +
  auc_rolling3 :: real

record grade_row = metric_row +
  grade_seg :: string

text \<open>The body of the loop of \<^verbatim>\<open>compute_auc_by_cohort\<close>, lines 114 to 121.\<close>

definition auc_body :: "ties \<Rightarrow> gran \<Rightarrow> timestamp \<times> loan list \<Rightarrow> error + cohort_row list" where
  "auc_body up gr ng =
     (case ng of (name, grp) \<Rightarrow>
        if nunique (map default_flag grp) < 2 \<or> length grp < 30 then Inr []
        else (case roc_auc_score (map default_flag grp) (map pred_default_prob grp) of
                Inl e \<Rightarrow> Inl e
              | Inr a \<Rightarrow> Inr [\<lparr>period = name, auc = py_round up a 4, n_loans = length grp,
                               default_rate = py_round up (flag_mean (map default_flag grp)) 4,
                               granularity = gr\<rparr>]))"

text \<open>The two nested loops, lines 111 to 121: the list \<^verbatim>\<open>results\<close>.\<close>

definition auc_results :: "ties \<Rightarrow> loan list \<Rightarrow> error + cohort_row list" where
  "auc_results up df =
     collect (\<lambda>gc. case gc of (gr, c) \<Rightarrow> collect (auc_body up gr) (groupby c df))
       [(Month, cohort), (Quarter, cohort_q)]"

text \<open>
  \<^verbatim>\<open>Series.rolling(3, min_periods=1).mean().round(4)\<close>: at position \<open>i\<close> the mean of the
  values at positions \<open>i - 2\<close> to \<open>i\<close> that exist, rounded to 4 decimals.
\<close>

definition window3 :: "real list \<Rightarrow> nat \<Rightarrow> real list" where
  "window3 xs i = take (Suc i - (i - 2)) (drop (i - 2) xs)"

definition mean :: "real list \<Rightarrow> real" where
  "mean xs = sum_list xs / real (length xs)"

definition rolling3 :: "ties \<Rightarrow> real list \<Rightarrow> real list" where
  "rolling3 up xs = map (\<lambda>i. py_round up (mean (window3 xs i)) 4) [0..<length xs]"

text \<open>
  \<^verbatim>\<open>auc_df.merge(monthly[["period", "auc_rolling3"]], on="period", how="left")\<close> followed
  by \<^verbatim>\<open>fillna(auc_df["auc"])\<close>: every row of the left table is paired with each row of
  the right table that has its period, and with a null when there is none; the null is
  then replaced by the row's own \<^verbatim>\<open>auc\<close>.
\<close>

definition merge_left :: "cohort_row list \<Rightarrow> (timestamp \<times> real) list
    \<Rightarrow> (cohort_row \<times> real option) list" where
  "merge_left rows right =
     concat (map (\<lambda>r. case filter (\<lambda>m. fst m = period r) right of
                          [] \<Rightarrow> [(r, None)]
                        | ms \<Rightarrow> map (\<lambda>m. (r, Some (snd m))) ms) rows)"

definition fillna :: "cohort_row \<times> real option \<Rightarrow> cohort_row_out" where
  "fillna rm =
     (case rm of (r, v) \<Rightarrow>
        cohort_row.extend r
          (cohort_row_out.fields (case v of None \<Rightarrow> auc r | Some s \<Rightarrow> s)))"

text \<open>
  \<^verbatim>\<open>compute_auc_by_cohort\<close>. A data frame built from an empty list has no columns, so
  the column access \<^verbatim>\<open>auc_df["granularity"]\<close> raises \<^verbatim>\<open>KeyError\<close> when no group passed
  the guard.
\<close>

definition compute_auc_by_cohort :: "ties \<Rightarrow> ties \<Rightarrow> loan list \<Rightarrow> error + cohort_row_out list" where
  "compute_auc_by_cohort up upa df =
     (case auc_results up df of
        Inl e \<Rightarrow> Inl e
      | Inr results \<Rightarrow>
          if results = [] then Inl KeyError
          else
            let monthly = sort_key period (filter (\<lambda>r. granularity r = Month) results);
                rolled = zip (map period monthly) (rolling3 upa (map auc monthly))
            in Inr (map fillna (merge_left results rolled)))"

text \<open>\<^verbatim>\<open>compute_auc_by_cohort_grade\<close>: the same loop over (cohort, grade) groups.\<close>

definition auc_grade_body :: "ties \<Rightarrow> (timestamp \<times> string) \<times> loan list \<Rightarrow> error + grade_row list" where
  "auc_grade_body up kg =
     (case kg of ((c, g), grp) \<Rightarrow>
        if nunique (map default_flag grp) < 2 \<or> length grp < 20 then Inr []
        else (case roc_auc_score (map default_flag grp) (map pred_default_prob grp) of
                Inl e \<Rightarrow> Inl e
              | Inr a \<Rightarrow> Inr [\<lparr>period = c, auc = py_round up a 4, n_loans = length grp,
                               default_rate = py_round up (flag_mean (map default_flag grp)) 4,
                               grade_seg = g\<rparr>]))"

definition compute_auc_by_cohort_grade :: "ties \<Rightarrow> loan list \<Rightarrow> error + grade_row list" where
  "compute_auc_by_cohort_grade up df =
     collect (auc_grade_body up) (groupby (\<lambda>r. (cohort r, grade r)) df)"

section \<open>Drift metric: population stability index\<close>

text \<open>
  Bin edges are floats that may be infinite: \<^verbatim>\<open>-np.inf\<close> is \<open>MInf\<close>, \<^verbatim>\<open>np.inf\<close> is
  \<open>PInf\<close>, ordered as the extended reals are.
\<close>

datatype edge = MInf | Fin real | PInf

fun edge_le :: "edge \<Rightarrow> edge \<Rightarrow> bool" where
  "edge_le MInf b = True"
| "edge_le (Fin x) MInf = False"
| "edge_le (Fin x) (Fin y) = (x \<le> y)"
| "edge_le (Fin x) PInf = True"
| "edge_le PInf PInf = True"
| "edge_le PInf b = False"

instantiation edge :: linorder
begin

definition less_eq_edge :: "edge \<Rightarrow> edge \<Rightarrow> bool" where
  "less_eq_edge a b = edge_le a b"

definition less_edge :: "edge \<Rightarrow> edge \<Rightarrow> bool" where
  "less_edge a b = (edge_le a b \<and> \<not> edge_le b a)"

instance
proof
  fix x y z :: edge
  show "(x < y) = (x \<le> y \<and> \<not> y \<le> x)"
    by (simp add: less_eq_edge_def less_edge_def)
  show "x \<le> x"
    by (cases x) (simp_all add: less_eq_edge_def)
  show "x \<le> y \<Longrightarrow> y \<le> z \<Longrightarrow> x \<le> z"
    by (cases x; cases y; cases z) (simp_all add: less_eq_edge_def)
  show "x \<le> y \<Longrightarrow> y \<le> x \<Longrightarrow> x = y"
    by (cases x; cases y) (simp_all add: less_eq_edge_def)
  show "x \<le> y \<or> y \<le> x"
    by (cases x; cases y) (auto simp: less_eq_edge_def)
qed

end

text \<open>\<^verbatim>\<open>Series.dropna()\<close>, and the mask \<^verbatim>\<open>x[~np.isnan(x)]\<close>: the non-null values.\<close>

fun dropna :: "real option list \<Rightarrow> real list" where
  "dropna [] = []"
| "dropna (None # xs) = dropna xs"
| "dropna (Some x # xs) = x # dropna xs"

text \<open>\<^verbatim>\<open>np.linspace(0, 1, n + 1)\<close>.\<close>

definition linspace01 :: "nat \<Rightarrow> real list" where
  "linspace01 n = map (\<lambda>j. real j / real n) [0..<Suc n]"

text \<open>
  \<^verbatim>\<open>np.quantile(values, qs)\<close> is numpy's. It interpolates in floats between two
  neighbours of the sorted data, so the last bits of a cut point, and with them the side
  of the cut point on which an equal data value falls, are the library's affair. The
  model takes the value numpy computes for the data \<open>xs\<close> at the quantile \<open>q\<close> from the
  parameter \<open>qf\<close>, of which nothing is assumed; what is proved holds for every \<open>qf\<close>. On
  empty data the library raises \<^verbatim>\<open>IndexError\<close>.
\<close>

type_synonym quantile_fn = "real list \<Rightarrow> real \<Rightarrow> real"

definition np_quantile :: "quantile_fn \<Rightarrow> real list \<Rightarrow> real list \<Rightarrow> error + real list" where
  "np_quantile qf xs qs = (if xs = [] then Inl IndexError else Inr (map (qf xs) qs))"

text \<open>
  The documented default of \<^verbatim>\<open>np.quantile\<close>, linear interpolation, in exact arithmetic:
  on the sorted data \<open>s\<close> of length \<open>n\<close> the quantile \<open>q\<close> sits at the virtual index
  \<open>(n - 1) q\<close>, between two neighbours.
\<close>

definition quantile_sorted :: "real list \<Rightarrow> real \<Rightarrow> real" where
  "quantile_sorted s q =
     (let h = real (length s - 1) * q; i = nat \<lfloor>h\<rfloor>; g = h - real i;
          j = min (Suc i) (length s - 1)
      in s ! i + g * (s ! j - s ! i))"

definition quantile_linear :: quantile_fn where
  "quantile_linear xs q = quantile_sorted (sort xs) q"

text \<open>\<^verbatim>\<open>np.unique\<close>: sorted, equal neighbours collapsed.\<close>

definition np_unique :: "edge list \<Rightarrow> edge list" where
  "np_unique es = remdups_adj (sort es)"

text \<open>Lines 93 to 96 of \<^verbatim>\<open>compute_psi\<close>: the bin edges, from \<^verbatim>\<open>expected\<close> alone.\<close>

definition psi_edges :: "quantile_fn \<Rightarrow> real option list \<Rightarrow> error + edge list" where
  "psi_edges qf expected =
     (case np_quantile qf (dropna expected) (linspace01 PSI_N_BINS) of
        Inl e \<Rightarrow> Inl e
      | Inr qs \<Rightarrow>
          let edges0 = map Fin qs;
              edges1 = edges0[0 := MInf];
              edges2 = edges1[length edges1 - 1 := PInf]
          in Inr (np_unique edges2))"

text \<open>
  \<^verbatim>\<open>np.histogram(values, bins=edges)[0]\<close>: bin \<open>i\<close> is half open, from edge \<open>i\<close> to edge
  \<open>i + 1\<close>, but for the last bin, which holds its right edge too. Edges that decrease
  somewhere raise \<^verbatim>\<open>ValueError\<close>.
\<close>

definition in_bin :: "edge list \<Rightarrow> nat \<Rightarrow> real \<Rightarrow> bool" where
  "in_bin edges i x =
     (edges ! i \<le> Fin x \<and>
      (Fin x < edges ! Suc i \<or> (Suc i = length edges - 1 \<and> Fin x = edges ! Suc i)))"

definition histogram :: "real list \<Rightarrow> edge list \<Rightarrow> error + nat list" where
  "histogram vals edges =
     (if \<not> sorted edges then Inl ValueError
      else Inr (map (\<lambda>i. length (filter (in_bin edges i) vals)) [0..<length edges - 1]))"

definition eps :: real where
  "eps = 1 / 10000"

text \<open>Lines 102 and 103: \<^verbatim>\<open>counts / counts.sum() + eps\<close>.\<close>

definition proportions :: "nat list \<Rightarrow> real list" where
  "proportions counts = map (\<lambda>c. real c / real (sum_list counts) + eps) counts"

text \<open>Line 105: one term per bin, and their sum.\<close>

definition psi_term :: "real \<Rightarrow> real \<Rightarrow> real" where
  "psi_term a e = (a - e) * ln (a / e)"

definition psi_sum :: "real list \<Rightarrow> real list \<Rightarrow> real" where
  "psi_sum a_pct e_pct = (\<Sum>ae\<leftarrow>zip a_pct e_pct. psi_term (fst ae) (snd ae))"

text \<open>
  \<^verbatim>\<open>compute_psi\<close>. A population without a value in any bin makes the division
  \<open>0 / 0\<close>: numpy raises nothing there, the result is NaN, and \<^verbatim>\<open>round\<close> leaves NaN as
  it is. The result of the function is \<open>Some\<close> of a real, or \<open>None\<close> for NaN. Otherwise
  every proportion is at least \<open>eps\<close>, so the logarithm is taken of a positive quotient.
\<close>

definition compute_psi :: "quantile_fn \<Rightarrow> ties \<Rightarrow> real option list \<Rightarrow> real option list \<Rightarrow> error + real option" where
  "compute_psi qf up expected actual =
     (case psi_edges qf expected of
        Inl e \<Rightarrow> Inl e
      | Inr edges \<Rightarrow>
          (case histogram (dropna expected) edges of
             Inl e \<Rightarrow> Inl e
           | Inr e_counts \<Rightarrow>
               (case histogram (dropna actual) edges of
                  Inl e \<Rightarrow> Inl e
                | Inr a_counts \<Rightarrow>
                    if sum_list e_counts = 0 \<or> sum_list a_counts = 0 then Inr None
                    else
                      let e_pct = proportions e_counts; a_pct = proportions a_counts
                      in Inr (Some (py_round up (psi_sum a_pct e_pct) 6)))))"

record psi_row =
  psi_period :: timestamp
  psi_feature :: feature
  psi :: "real option"
  n_obs :: nat

text \<open>\<^verbatim>\<open>compute_psi_by_cohort\<close>: the baseline of a feature, and the loop body.\<close>

definition train :: "loan list \<Rightarrow> loan list" where
  "train df = filter (\<lambda>r. year r \<in> set TRAIN_YEARS) df"

definition baseline :: "loan list \<Rightarrow> feature \<Rightarrow> real list" where
  "baseline df f = dropna (map (col f) (train df))"

definition psi_body :: "quantile_fn \<Rightarrow> ties \<Rightarrow> loan list \<Rightarrow> feature \<Rightarrow> timestamp \<times> loan list \<Rightarrow> error + psi_row list" where
  "psi_body qf up df f cg =
     (case cg of (c, grp) \<Rightarrow>
        let actual = dropna (map (col f) grp)
        in if length actual < 10 then Inr []
           else (case compute_psi qf up (map Some (baseline df f)) (map Some actual) of
                   Inl e \<Rightarrow> Inl e
                 | Inr psi_val \<Rightarrow>
                     Inr [\<lparr>psi_period = c, psi_feature = f, psi = psi_val,
                           n_obs = length actual\<rparr>]))"


section \<open>Distribution sampler\<close>

text \<open>
  \<^verbatim>\<open>compute_feature_distributions\<close> keeps the drift features and the year of every row
  and labels it by training-year membership.
\<close>

record dist_row =
  s_dti :: "real option"
  s_int_rate :: "real option"
  s_annual_inc :: "real option"
  s_loan_amnt :: "real option"
  s_year :: int
  period_label :: string

definition label_of :: "int \<Rightarrow> string" where
  "label_of y = (if y \<in> set TRAIN_YEARS then ''training (2012-14)'' else ''monitoring (2015-18)'')"

definition df_out :: "loan list \<Rightarrow> dist_row list" where
  "df_out df =
     map (\<lambda>r. \<lparr>s_dti = dti r, s_int_rate = int_rate r, s_annual_inc = annual_inc r,
               s_loan_amnt = loan_amnt r, s_year = year r,
               period_label = label_of (year r)\<rparr>) df"

text \<open>
  \<^verbatim>\<open>group.sample(n=n, random_state=42)\<close> draws row positions from a generator seeded
  with 42. The generator is the library's; it is the parameter \<open>rng\<close>, which maps the
  seed, the size of the group and \<open>n\<close> to the positions drawn, and \<open>valid_rng\<close> is its
  contract for sampling without replacement.
\<close>

definition valid_rng :: "(nat \<Rightarrow> nat \<Rightarrow> nat \<Rightarrow> nat list) \<Rightarrow> bool" where
  "valid_rng rng =
     (\<forall>seed len n. n \<le> len \<longrightarrow>
        length (rng seed len n) = n \<and> distinct (rng seed len n) \<and>
        set (rng seed len n) \<subseteq> {..<len})"

definition sample_positions :: "(nat \<Rightarrow> nat \<Rightarrow> nat \<Rightarrow> nat list) \<Rightarrow> 'a list \<Rightarrow> nat list" where
  "sample_positions rng grp = rng 42 (length grp) (min (length grp) 5000)"

definition sample :: "(nat \<Rightarrow> nat \<Rightarrow> nat \<Rightarrow> nat list) \<Rightarrow> 'a list \<Rightarrow> 'a list" where
  "sample rng grp = map (\<lambda>i. grp ! i) (sample_positions rng grp)"

text \<open>
  The loop over the groups of \<^verbatim>\<open>period_label\<close>, in the order of the sorted labels, and
  \<^verbatim>\<open>pd.concat(sampled, ignore_index=True)\<close>, which raises \<^verbatim>\<open>ValueError\<close> when there is
  no frame to concatenate.
\<close>

definition compute_feature_distributions ::
    "(nat \<Rightarrow> nat \<Rightarrow> nat \<Rightarrow> nat list) \<Rightarrow> loan list \<Rightarrow> error + dist_row list" where
  "compute_feature_distributions rng df =
     (let sampled = map (\<lambda>lg. sample rng (snd lg)) (groupby period_label (df_out df))
      in if sampled = [] then Inl ValueError else Inr (concat sampled))"

section \<open>Notions used in the statements about AUC\<close>

definition auc_raw :: "loan list \<Rightarrow> real" where
  "auc_raw grp = pair_total (map pred_default_prob (filter default_flag grp))
      (map pred_default_prob (filter (\<lambda>r. \<not> default_flag r) grp))
     / (real (length (filter default_flag grp)) * real (length (filter (\<lambda>r. \<not> default_flag r) grp)))"

definition auc_guard :: "nat \<Rightarrow> loan list \<Rightarrow> bool" where
  "auc_guard n grp = (2 \<le> nunique (map default_flag grp) \<and> n \<le> length grp)"

definition rows_of :: "('k \<Rightarrow> loan list \<Rightarrow> 'b) \<Rightarrow> nat \<Rightarrow> 'k \<times> loan list \<Rightarrow> 'b list" where
  "rows_of mk n kg = (if auc_guard n (snd kg) then [mk (fst kg) (snd kg)] else [])"

definition cohort_auc_row :: "ties \<Rightarrow> gran \<Rightarrow> timestamp \<Rightarrow> loan list \<Rightarrow> cohort_row" where
  "cohort_auc_row up gr name grp =
     \<lparr>period = name, auc = py_round up (auc_raw grp) 4, n_loans = length grp,
      default_rate = py_round up (flag_mean (map default_flag grp)) 4, granularity = gr\<rparr>"

definition grade_auc_row :: "ties \<Rightarrow> timestamp \<times> string \<Rightarrow> loan list \<Rightarrow> grade_row" where
  "grade_auc_row up cg grp =
     \<lparr>period = fst cg, auc = py_round up (auc_raw grp) 4, n_loans = length grp,
      default_rate = py_round up (flag_mean (map default_flag grp)) 4, grade_seg = snd cg\<rparr>"

definition group_of :: "('a \<Rightarrow> 'k) \<Rightarrow> 'a list \<Rightarrow> 'k \<Rightarrow> 'a list" where
  "group_of key df k = filter (\<lambda>r. key r = k) df"

definition gran_rows :: "ties \<Rightarrow> gran \<Rightarrow> (loan \<Rightarrow> timestamp) \<Rightarrow> loan list \<Rightarrow> cohort_row list" where
  "gran_rows up gr c df = concat (map (rows_of (cohort_auc_row up gr) 30) (groupby c df))"

text \<open>A group is perfectly separable when every default scores above every non-default.\<close>

definition separable :: "loan list \<Rightarrow> bool" where
  "separable grp =
     (\<forall>p\<in>set grp. \<forall>n\<in>set grp.
        default_flag p \<and> \<not> default_flag n \<longrightarrow> pred_default_prob n < pred_default_prob p)"

text \<open>A group is fully tied when all its loans have the same score.\<close>

definition tied :: "loan list \<Rightarrow> bool" where
  "tied grp = (\<forall>p\<in>set grp. \<forall>n\<in>set grp. pred_default_prob p = pred_default_prob n)"

text \<open>The mean of the values a trailing window of 3 holds at position \<open>i\<close>.\<close>

definition trailing_mean :: "real list \<Rightarrow> nat \<Rightarrow> real" where
  "trailing_mean xs i =
     (if i = 0 then xs ! 0
      else if i = 1 then (xs ! 0 + xs ! 1) / 2
      else (xs ! (i - 2) + xs ! (i - 1) + xs ! i) / 3)"

text \<open>
  The value the left merge finds for a period in the table of rolling values, and the
  output row it makes of a row of \<^verbatim>\<open>results\<close>.
\<close>

definition lookup_rolled :: "(timestamp \<times> real) list \<Rightarrow> timestamp \<Rightarrow> real option" where
  "lookup_rolled right p =
     (case filter (\<lambda>m. fst m = p) right of [] \<Rightarrow> None | m # ms \<Rightarrow> Some (snd m))"

definition smoothed :: "ties \<Rightarrow> cohort_row list \<Rightarrow> cohort_row \<Rightarrow> cohort_row_out" where
  "smoothed upa M r =
     fillna (r, lookup_rolled (zip (map period M) (rolling3 upa (map auc M))) (period r))"

section \<open>Notions used in the statements about PSI\<close>

text \<open>The eleven edges before \<^verbatim>\<open>np.unique\<close>, from the non-null baseline values.\<close>

definition raw_edges :: "quantile_fn \<Rightarrow> real list \<Rightarrow> edge list" where
  "raw_edges qf b =
     (map Fin (map (qf b) (linspace01 PSI_N_BINS)))
       [0 := MInf, length (linspace01 PSI_N_BINS) - 1 := PInf]"

text \<open>The bin edges of a baseline.\<close>

definition edges_of :: "quantile_fn \<Rightarrow> real list \<Rightarrow> edge list" where
  "edges_of qf b = np_unique (raw_edges qf b)"

text \<open>The bin edges in the words of the specification: the quantile cut points at 1/10, ..., 9/10 between \<open>-\<infinity>\<close> and \<open>+\<infinity>\<close>, sorted, duplicates collapsed.\<close>

definition spec_edges :: "quantile_fn \<Rightarrow> real list \<Rightarrow> edge list" where
  "spec_edges qf b =
     remdups_adj (sort (MInf # map (\<lambda>j. Fin (qf b (real j / 10))) [1..<10]
                         @ [PInf]))"

text \<open>The counts per bin that \<^verbatim>\<open>np.histogram\<close> returns on increasing edges.\<close>

definition bin_counts :: "edge list \<Rightarrow> real list \<Rightarrow> nat list" where
  "bin_counts es vals = map (\<lambda>i. length (filter (in_bin es i) vals)) [0..<length es - 1]"

text \<open>The smoothed proportions of lines 102 and 103, and the sum of line 105 before rounding.\<close>

definition actual_pct :: "quantile_fn \<Rightarrow> real option list \<Rightarrow> real option list \<Rightarrow> real list" where
  "actual_pct qf expected actual = proportions (bin_counts (edges_of qf (dropna expected)) (dropna actual))"

definition expected_pct :: "quantile_fn \<Rightarrow> real option list \<Rightarrow> real list" where
  "expected_pct qf expected = proportions (bin_counts (edges_of qf (dropna expected)) (dropna expected))"

definition psi_raw :: "quantile_fn \<Rightarrow> real option list \<Rightarrow> real option list \<Rightarrow> real" where
  "psi_raw qf expected actual = psi_sum (actual_pct qf expected actual) (expected_pct qf expected)"

text \<open>
  The row that \<^verbatim>\<open>compute_psi_by_cohort\<close> appends for a feature and a cohort with the
  non-null values \<open>actual\<close>: both populations are counted in the bins of the baseline.
\<close>

definition psi_out_row :: "quantile_fn \<Rightarrow> ties \<Rightarrow> loan list \<Rightarrow> feature \<Rightarrow> timestamp \<Rightarrow> real list \<Rightarrow> psi_row" where
  "psi_out_row qf up df f c actual =
     \<lparr>psi_period = c, psi_feature = f,
      psi = Some (py_round up (psi_sum (proportions (bin_counts (edges_of qf (baseline df f)) actual))
                               (proportions (bin_counts (edges_of qf (baseline df f)) (baseline df f)))) 6),
      n_obs = length actual\<rparr>"




section \<open>Notions used in the statements about the sampler\<close>

text \<open>
  The two strata of the frame: the rows whose year is a training year (\<open>True\<close>) and the
  others (\<open>False\<close>).
\<close>

definition stratum :: "bool \<Rightarrow> loan list \<Rightarrow> dist_row list" where
  "stratum t df = filter (\<lambda>r. (s_year r \<in> set TRAIN_YEARS) = t) (df_out df)"

text \<open>
  A generator that meets the contract: it draws the last positions first.
\<close>

definition last_first_rng :: "nat \<Rightarrow> nat \<Rightarrow> nat \<Rightarrow> nat list" where
  "last_first_rng seed len n = take n (rev [0..<len])"

section \<open>Example data\<close>

definition mk_loan :: "timestamp \<Rightarrow> string \<Rightarrow> bool \<Rightarrow> real \<Rightarrow> loan" where
  "mk_loan d g f s =
     \<lparr>issue_d = d, year = fst d, grade = g, loan_amnt = Some 1000, int_rate = Some 10,
      annual_inc = Some 50000, dti = Some 20, default_flag = f, pred_default_prob = s\<rparr>"

text \<open>One month of 25 loans with both outcomes, 20 of them of grade A.\<close>

definition df25 :: "loan list" where
  "df25 = replicate 19 (mk_loan (2015, 3, 1) ''A'' False (1 / 10))
        @ [mk_loan (2015, 3, 1) ''A'' True (9 / 10)]
        @ replicate 5 (mk_loan (2015, 3, 1) ''B'' False (1 / 5))"

text \<open>A group of 30 loans whose only default has the highest score.\<close>

definition grp30 :: "loan list" where
  "grp30 = replicate 29 (mk_loan (2015, 1, 1) ''A'' False (1 / 10))
         @ [mk_loan (2015, 1, 1) ''A'' True (9 / 10)]"

text \<open>
  Two months of 30 loans each in the first quarter of 2015: the score ranks January
  perfectly and February the wrong way round.
\<close>

definition df_q1 :: "loan list" where
  "df_q1 = replicate 29 (mk_loan (2015, 1, 1) ''A'' False (1 / 10))
         @ [mk_loan (2015, 1, 1) ''A'' True (9 / 10)]
         @ replicate 29 (mk_loan (2015, 2, 1) ''A'' False (1 / 2))
         @ [mk_loan (2015, 2, 1) ''A'' True (1 / 20)]"

text \<open>
  Two populations with a null value each.
\<close>

definition expected_ex :: "real option list" where
  "expected_ex = [Some 1, None, Some 2, Some 3, Some 3]"

definition actual_ex :: "real option list" where
  "actual_ex = [Some 2, None, Some 5]"

text \<open>
  A training month of 10 loans and a monitoring month of 9.
\<close>

definition df_psi :: "loan list" where
  "df_psi = replicate 10 (mk_loan (2013, 5, 1) ''A'' False (1 / 10))
          @ replicate 9 (mk_loan (2015, 1, 1) ''A'' False (1 / 10))"



text \<open>
  A monitoring stratum of 8000 loans and a training stratum of 3000.
\<close>

definition df_capped :: "loan list" where
  "df_capped = replicate 8000 (mk_loan (2016, 2, 1) ''B'' False (1 / 5))
             @ replicate 3000 (mk_loan (2013, 5, 1) ''A'' False (1 / 10))"

text \<open>
  Two training loans and one monitoring loan.
\<close>

definition df_strata :: "loan list" where
  "df_strata = [mk_loan (2013, 5, 1) ''A'' False (1 / 10), mk_loan (2016, 2, 1) ''B'' False (2 / 10),
                mk_loan (2014, 7, 1) ''C'' True (3 / 10)]"

section \<open>Rounding, loops and the AUC guard\<close>

lemma collect_Inr:
  assumes "\<And>x. x \<in> set xs \<Longrightarrow> f x = Inr (g x)"
  shows "collect f xs = Inr (concat (map g xs))"
  using assms by (induction xs) auto

lemma nunique_bool: "2 \<le> nunique (ys::bool list) \<longleftrightarrow> True \<in> set ys \<and> False \<in> set ys"
proof -
  have c: "nunique ys = card (set ys)"
    by (simp add: nunique_def length_remdups_card_conv)
  have small: "card (set ys) \<le> 1" if "set ys \<subseteq> {b}" for b
    using card_mono [OF _ that] by simp
  show ?thesis
  proof
    assume two: "2 \<le> nunique ys"
    have "True \<in> set ys"
    proof (rule ccontr)
      assume "True \<notin> set ys"
      then have "set ys \<subseteq> {False}" by auto
      from small [OF this] two c show False by simp
    qed
    moreover have "False \<in> set ys"
    proof (rule ccontr)
      assume nf: "False \<notin> set ys"
      have "set ys \<subseteq> {True}"
      proof
        fix x assume "x \<in> set ys"
        with nf have "x \<noteq> False" by blast
        then show "x \<in> {True}" by simp
      qed
      from small [OF this] two c show False by simp
    qed
    ultimately show "True \<in> set ys \<and> False \<in> set ys" by simp
  next
    assume "True \<in> set ys \<and> False \<in> set ys"
    then have "{True, False} \<subseteq> set ys" by simp
    then have "card {True, False} \<le> card (set ys)"
      by (intro card_mono) auto
    then show "2 \<le> nunique ys" using c by simp
  qed
qed

lemma round_nearest_bounds: "\<lfloor>y\<rfloor> \<le> round_nearest t y \<and> round_nearest t y \<le> \<lceil>y\<rceil>"
proof -
  have "y - of_int \<lfloor>y\<rfloor> \<ge> 1 / 2 \<Longrightarrow> \<lceil>y\<rceil> = \<lfloor>y\<rfloor> + 1"
    by linarith
  moreover have "\<lfloor>y\<rfloor> \<le> \<lceil>y\<rceil>" by linarith
  ultimately show ?thesis
    unfolding round_nearest_def Let_def by auto
qed

lemma round_nearest_of_int: "round_nearest t (of_int k) = k"
  using round_nearest_bounds [of "of_int k" t] by simp

lemma round_nearest_dist: "\<bar>of_int (round_nearest t y) - y\<bar> \<le> 1 / 2"
proof -
  have "0 \<le> y - of_int \<lfloor>y\<rfloor>" and "y - of_int \<lfloor>y\<rfloor> < 1"
    by linarith+
  then show ?thesis
    unfolding round_nearest_def Let_def by auto
qed

lemma py_round_ge: "real_of_int k / 10 ^ n \<le> x \<Longrightarrow> real_of_int k / 10 ^ n \<le> py_round up x n"
proof -
  assume "real_of_int k / 10 ^ n \<le> x"
  then have "real_of_int k \<le> x * 10 ^ n"
    by (simp add: pos_divide_le_eq)
  then have "k \<le> \<lfloor>x * 10 ^ n\<rfloor>" by (simp add: le_floor_iff)
  then have "k \<le> round_nearest (up x n) (x * 10 ^ n)"
    using round_nearest_bounds [of "x * 10 ^ n" "up x n"] by linarith
  then show ?thesis
    by (simp add: py_round_def divide_right_mono)
qed

lemma py_round_le: "x \<le> real_of_int k / 10 ^ n \<Longrightarrow> py_round up x n \<le> real_of_int k / 10 ^ n"
proof -
  assume "x \<le> real_of_int k / 10 ^ n"
  then have "x * 10 ^ n \<le> real_of_int k"
    by (simp add: pos_le_divide_eq)
  then have "\<lceil>x * 10 ^ n\<rceil> \<le> k" by (simp add: ceiling_le_iff)
  then have "round_nearest (up x n) (x * 10 ^ n) \<le> k"
    using round_nearest_bounds [of "x * 10 ^ n" "up x n"] by linarith
  then show ?thesis
    by (simp add: py_round_def divide_right_mono)
qed

lemma py_round_nonneg: "0 \<le> x \<Longrightarrow> 0 \<le> py_round up x n"
  using py_round_ge [of 0 n x up] by simp

lemma py_round_le_one: "x \<le> 1 \<Longrightarrow> py_round up x n \<le> 1"
  using py_round_le [of x "10 ^ n" n up] by simp

lemma py_round_exact: "py_round up (real_of_int k / 10 ^ n) n = real_of_int k / 10 ^ n"
  by (simp add: py_round_def round_nearest_of_int)

lemma py_round_idem: "py_round up' (py_round up x n) n = py_round up x n"
  unfolding py_round_def [of up x n] by (rule py_round_exact)

lemma py_round_one: "py_round up 1 n = 1"
  using py_round_exact [of up "10 ^ n" n] by simp

lemma py_round_zero: "py_round up 0 n = 0"
  using py_round_exact [of up 0 n] by simp

lemma py_round_decimal: "\<exists>k::int. py_round up x n = real_of_int k / 10 ^ n"
  by (auto simp: py_round_def)

lemma scaled_dist:
  fixes a x c :: real
  assumes "0 < c"
  shows "\<bar>a / c - x\<bar> = \<bar>a - x * c\<bar> / c"
proof -
  have "a / c - x = (a - x * c) / c"
    using assms by (simp add: field_simps)
  then have "\<bar>a / c - x\<bar> = \<bar>(a - x * c) / c\<bar>" by simp
  also have "\<dots> = \<bar>a - x * c\<bar> / \<bar>c\<bar>" by (rule abs_divide)
  also have "\<bar>c\<bar> = c" using assms by simp
  finally show ?thesis .
qed

lemma py_round_dist: "\<bar>py_round up x n - x\<bar> \<le> 1 / (2 * 10 ^ n)"
proof -
  let ?a = "real_of_int (round_nearest (up x n) (x * 10 ^ n))"
  have "\<bar>?a - x * 10 ^ n\<bar> \<le> 1 / 2"
    by (rule round_nearest_dist)
  then have "\<bar>?a - x * 10 ^ n\<bar> / 10 ^ n \<le> (1 / 2) / 10 ^ n"
    by (rule divide_right_mono) simp
  moreover have "\<bar>?a / 10 ^ n - x\<bar> = \<bar>?a - x * 10 ^ n\<bar> / 10 ^ n"
    by (rule scaled_dist) simp
  ultimately show ?thesis by (simp add: py_round_def)
qed

lemma pair_score_bounds: "0 \<le> pair_score p n \<and> pair_score p n \<le> 1"
  by (simp add: pair_score_def)

lemma inner_bounds: "0 \<le> (\<Sum>n\<leftarrow>neg. pair_score p n) \<and> (\<Sum>n\<leftarrow>neg. pair_score p n) \<le> real (length neg)"
proof (induction neg)
  case Nil
  then show ?case by simp
next
  case (Cons a neg)
  then show ?case using pair_score_bounds [of p a] by simp
qed

lemma pair_total_bounds:
  "0 \<le> pair_total pos neg \<and> pair_total pos neg \<le> real (length pos) * real (length neg)"
proof (induction pos)
  case Nil
  then show ?case by (simp add: pair_total_def)
next
  case (Cons a pos)
  then show ?case using inner_bounds [of a neg]
    by (simp add: pair_total_def algebra_simps)
qed

lemma inner_separable:
  "\<forall>n\<in>set neg. n < p \<Longrightarrow> (\<Sum>n\<leftarrow>neg. pair_score p n) = real (length neg)"
  by (induction neg) (simp_all add: pair_score_def)

lemma pair_total_separable:
  "\<forall>p\<in>set pos. \<forall>n\<in>set neg. n < p \<Longrightarrow> pair_total pos neg = real (length pos) * real (length neg)"
proof (induction pos)
  case Nil
  then show ?case by (simp add: pair_total_def)
next
  case (Cons a pos)
  then have "(\<Sum>n\<leftarrow>neg. pair_score a n) = real (length neg)"
    by (intro inner_separable) simp
  with Cons show ?case
    by (simp add: pair_total_def algebra_simps)
qed

lemma pos_scores_map:
  "pos_scores (map default_flag grp) (map pred_default_prob grp)
     = map pred_default_prob (filter default_flag grp)"
  by (induction grp) (simp_all add: pos_scores_def)

lemma neg_scores_map:
  "neg_scores (map default_flag grp) (map pred_default_prob grp)
     = map pred_default_prob (filter (\<lambda>r. \<not> default_flag r) grp)"
  by (induction grp) (simp_all add: neg_scores_def)

lemma both_classes:
  assumes "2 \<le> nunique (map default_flag grp)"
  shows "filter default_flag grp \<noteq> [] \<and> filter (\<lambda>r. \<not> default_flag r) grp \<noteq> []"
proof -
  from assms have "True \<in> set (map default_flag grp) \<and> False \<in> set (map default_flag grp)"
    by (simp only: nunique_bool)
  then show ?thesis
    by (auto simp: filter_empty_conv)
qed

lemma roc_auc_defined:
  assumes "2 \<le> nunique (map default_flag grp)"
  shows "roc_auc_score (map default_flag grp) (map pred_default_prob grp) = Inr (auc_raw grp)"
  using both_classes [OF assms]
  by (simp add: roc_auc_score_def pos_scores_map neg_scores_map auc_raw_def Let_def)

lemma auc_raw_bounds:
  assumes "2 \<le> nunique (map default_flag grp)"
  shows "0 \<le> auc_raw grp \<and> auc_raw grp \<le> 1"
proof -
  let ?pos = "map pred_default_prob (filter default_flag grp)"
  let ?neg = "map pred_default_prob (filter (\<lambda>r. \<not> default_flag r) grp)"
  have ne: "?pos \<noteq> [] \<and> ?neg \<noteq> []" using both_classes [OF assms] by simp
  then have d: "0 < real (length ?pos) * real (length ?neg)" by simp
  have "0 \<le> pair_total ?pos ?neg \<and> pair_total ?pos ?neg \<le> real (length ?pos) * real (length ?neg)"
    by (rule pair_total_bounds)
  with d have "0 \<le> pair_total ?pos ?neg / (real (length ?pos) * real (length ?neg))
     \<and> pair_total ?pos ?neg / (real (length ?pos) * real (length ?neg)) \<le> 1"
    by (simp add: divide_le_eq)
  then show ?thesis by (simp add: auc_raw_def)
qed

lemma auc_raw_separable:
  assumes "2 \<le> nunique (map default_flag grp)"
    and "\<forall>p\<in>set grp. \<forall>n\<in>set grp. default_flag p \<and> \<not> default_flag n \<longrightarrow> pred_default_prob n < pred_default_prob p"
  shows "auc_raw grp = 1"
proof -
  let ?pos = "map pred_default_prob (filter default_flag grp)"
  let ?neg = "map pred_default_prob (filter (\<lambda>r. \<not> default_flag r) grp)"
  have ne: "?pos \<noteq> [] \<and> ?neg \<noteq> []" using both_classes [OF assms(1)] by simp
  then have d: "0 < real (length ?pos) * real (length ?neg)" by simp
  have "\<forall>p\<in>set ?pos. \<forall>n\<in>set ?neg. n < p" using assms(2) by auto
  then have "pair_total ?pos ?neg = real (length ?pos) * real (length ?neg)"
    by (rule pair_total_separable)
  with d ne show ?thesis by (simp add: auc_raw_def)
qed

lemma auc_body_eq: "auc_body up gr kg = Inr (if auc_guard 30 (snd kg) then [cohort_auc_row up gr (fst kg) (snd kg)] else [])"
proof (cases kg)
  case (Pair name grp)
  show ?thesis
  proof (cases "auc_guard 30 grp")
    case True
    then have "2 \<le> nunique (map default_flag grp)" by (simp add: auc_guard_def)
    from roc_auc_defined [OF this] True Pair show ?thesis
      by (simp add: auc_body_def auc_guard_def cohort_auc_row_def)
  next
    case False
    with Pair show ?thesis
      by (auto simp add: auc_body_def auc_guard_def)
  qed
qed

lemma auc_grade_body_eq:
  "auc_grade_body up kg = Inr (if auc_guard 20 (snd kg) then [grade_auc_row up (fst kg) (snd kg)] else [])"
proof (cases kg)
  case (Pair cg grp)
  obtain c g where cg: "cg = (c, g)" by (cases cg)
  show ?thesis
  proof (cases "auc_guard 20 grp")
    case True
    then have "2 \<le> nunique (map default_flag grp)" by (simp add: auc_guard_def)
    from roc_auc_defined [OF this] True Pair cg show ?thesis
      by (simp add: auc_grade_body_def auc_guard_def grade_auc_row_def)
  next
    case False
    with Pair cg show ?thesis
      by (auto simp add: auc_grade_body_def auc_guard_def)
  qed
qed

lemma filter_concat_distinct:
  assumes "distinct ks" and "\<And>k r. k \<in> set ks \<Longrightarrow> r \<in> set (h k) \<Longrightarrow> key r = k"
  shows "filter (\<lambda>r. key r = p) (concat (map h ks)) = (if p \<in> set ks then h p else [])"
  using assms
proof (induction ks)
  case Nil
  then show ?case by simp
next
  case (Cons k ks)
  have a: "filter (\<lambda>r. key r = p) (h k) = (if k = p then h k else [])"
    using Cons.prems(2) [of k] by (auto simp: filter_empty_conv intro: filter_True)
  have b: "filter (\<lambda>r. key r = p) (concat (map h ks)) = (if p \<in> set ks then h p else [])"
    using Cons by simp
  show ?case using a b Cons.prems(1) by auto
qed

lemma groupby_alt: "groupby key df = map (\<lambda>k. (k, group_of key df k)) (sort (remdups (map key df)))"
  by (simp add: groupby_def group_of_def)

lemma filter_groupby:
  assumes "\<And>k r. r \<in> set (h (k, group_of key df k)) \<Longrightarrow> rk r = k"
  shows "filter (\<lambda>r. rk r = p) (concat (map h (groupby key df)))
     = (if p \<in> key ` set df then h (p, group_of key df p) else [])"
proof -
  let ?ks = "sort (remdups (map key df))"
  have "filter (\<lambda>r. rk r = p) (concat (map (\<lambda>k. h (k, group_of key df k)) ?ks))
      = (if p \<in> set ?ks then h (p, group_of key df p) else [])"
    by (rule filter_concat_distinct) (simp_all add: assms)
  then show ?thesis by (simp add: groupby_alt comp_def)
qed

lemma group_of_empty: "p \<notin> key ` set df \<Longrightarrow> group_of key df p = []"
  by (auto simp: group_of_def filter_empty_conv)

lemma guard_empty: "0 < n \<Longrightarrow> \<not> auc_guard n []"
  by (simp add: auc_guard_def)

lemma collect_auc_body:
  "collect (auc_body up gr) kgs = Inr (concat (map (rows_of (cohort_auc_row up gr) 30) kgs))"
  by (rule collect_Inr) (simp add: auc_body_eq rows_of_def)

lemma collect_auc_grade_body:
  "collect (auc_grade_body up) kgs = Inr (concat (map (rows_of (grade_auc_row up) 20) kgs))"
  by (rule collect_Inr) (simp add: auc_grade_body_eq rows_of_def)

lemma auc_results_eq:
  "auc_results up df = Inr (gran_rows up Month cohort df @ gran_rows up Quarter cohort_q df)"
  by (simp add: auc_results_def collect_auc_body gran_rows_def)

lemma gran_rows_gran: "r \<in> set (gran_rows up gr c df) \<Longrightarrow> granularity r = gr"
  by (auto simp: gran_rows_def rows_of_def cohort_auc_row_def split: if_splits)

lemma gran_rows_period:
  "filter (\<lambda>r. period r = p) (gran_rows up gr c df)
    = (if auc_guard 30 (group_of c df p) then [cohort_auc_row up gr p (group_of c df p)] else [])"
proof -
  have "filter (\<lambda>r. period r = p) (gran_rows up gr c df)
      = (if p \<in> c ` set df then rows_of (cohort_auc_row up gr) 30 (p, group_of c df p) else [])"
    unfolding gran_rows_def
    by (rule filter_groupby) (auto simp: rows_of_def cohort_auc_row_def split: if_splits)
  then show ?thesis
    using group_of_empty [of p c df] guard_empty [of 30]
    by (auto simp: rows_of_def)
qed

lemma filter_conj: "filter (\<lambda>r. A r \<and> B r) xs = filter A (filter B xs)"
  by (induction xs) auto

lemma gran_rows_select:
  "filter (\<lambda>r. granularity r = gr' \<and> period r = p) (gran_rows up gr c df)
    = (if gr' = gr \<and> auc_guard 30 (group_of c df p) then [cohort_auc_row up gr p (group_of c df p)] else [])"
  unfolding filter_conj gran_rows_period
  by (simp add: cohort_auc_row_def)

lemma results_count:
  "length (filter (\<lambda>r. granularity r = gr' \<and> period r = p) (gran_rows up gr c df))
    = (if gr' = gr \<and> auc_guard 30 (group_of c df p) then 1 else 0)"
  unfolding gran_rows_select by simp

lemma grade_rows_select:
  "filter (\<lambda>r. (period r, grade_seg r) = pg) (concat (map (rows_of (grade_auc_row up) 20) (groupby key df)))
    = (if auc_guard 20 (group_of key df pg) then [grade_auc_row up pg (group_of key df pg)] else [])"
proof -
  have "filter (\<lambda>r. (period r, grade_seg r) = pg) (concat (map (rows_of (grade_auc_row up) 20) (groupby key df)))
      = (if pg \<in> key ` set df then rows_of (grade_auc_row up) 20 (pg, group_of key df pg) else [])"
    by (rule filter_groupby) (auto simp: rows_of_def grade_auc_row_def split: if_splits)
  then show ?thesis
    using group_of_empty [of pg key df] guard_empty [of 20]
    by (auto simp: rows_of_def)
qed

lemma grade_count:
  "length (filter (\<lambda>r. period r = p \<and> grade_seg r = g) (concat (map (rows_of (grade_auc_row up) 20) (groupby key df))))
    = (if auc_guard 20 (group_of key df (p, g)) then 1 else 0)"
proof -
  have "filter (\<lambda>r. period r = p \<and> grade_seg r = g) (concat (map (rows_of (grade_auc_row up) 20) (groupby key df)))
      = filter (\<lambda>r. (period r, grade_seg r) = (p, g)) (concat (map (rows_of (grade_auc_row up) 20) (groupby key df)))"
    by simp
  then show ?thesis
    unfolding grade_rows_select by simp
qed


lemma inner_tied:
  "\<forall>n\<in>set neg. n = p \<Longrightarrow> (\<Sum>n\<leftarrow>neg. pair_score p n) = real (length neg) / 2"
  by (induction neg) (simp_all add: pair_score_def field_simps)

lemma pair_total_tied:
  "\<forall>p\<in>set pos. \<forall>n\<in>set neg. n = p \<Longrightarrow> pair_total pos neg = real (length pos) * real (length neg) / 2"
proof (induction pos)
  case Nil
  then show ?case by (simp add: pair_total_def)
next
  case (Cons a pos)
  then have "(\<Sum>n\<leftarrow>neg. pair_score a n) = real (length neg) / 2"
    by (intro inner_tied) simp
  with Cons show ?case
    by (simp add: pair_total_def algebra_simps)
qed

lemma auc_raw_tied:
  assumes "2 \<le> nunique (map default_flag grp)" and "tied grp"
  shows "auc_raw grp = 1 / 2"
proof -
  let ?pos = "map pred_default_prob (filter default_flag grp)"
  let ?neg = "map pred_default_prob (filter (\<lambda>r. \<not> default_flag r) grp)"
  have ne: "?pos \<noteq> [] \<and> ?neg \<noteq> []" using both_classes [OF assms(1)] by simp
  then have d: "0 < real (length ?pos) * real (length ?neg)" by simp
  have "\<forall>p\<in>set ?pos. \<forall>n\<in>set ?neg. n = p" using assms(2) by (auto simp: tied_def)
  then have "pair_total ?pos ?neg = real (length ?pos) * real (length ?neg) / 2"
    by (rule pair_total_tied)
  with d ne show ?thesis by (simp add: auc_raw_def)
qed

lemma py_round_half: "py_round up (1 / 2) 4 = 1 / 2"
  using py_round_exact [of up 5000 4] by simp

lemma auc_loop_rows:
  "\<exists>results rows.
     auc_results up df = Inr results \<and> compute_auc_by_cohort_grade up df = Inr rows \<and>
     (\<forall>p. length (filter (\<lambda>r. granularity r = Month \<and> period r = p) results)
            = (if auc_guard 30 (group_of cohort df p) then 1 else 0)) \<and>
     (\<forall>p. length (filter (\<lambda>r. granularity r = Quarter \<and> period r = p) results)
            = (if auc_guard 30 (group_of cohort_q df p) then 1 else 0)) \<and>
     (\<forall>p g. length (filter (\<lambda>r. period r = p \<and> grade_seg r = g) rows)
            = (if auc_guard 20 (group_of (\<lambda>r. (cohort r, grade r)) df (p, g)) then 1 else 0))"
proof -
  let ?rows = "concat (map (rows_of (grade_auc_row up) 20) (groupby (\<lambda>r. (cohort r, grade r)) df))"
  let ?results = "gran_rows up Month cohort df @ gran_rows up Quarter cohort_q df"
  have g: "compute_auc_by_cohort_grade up df = Inr ?rows"
    by (simp add: compute_auc_by_cohort_grade_def collect_auc_grade_body)
  have m: "\<And>p. length (filter (\<lambda>r. granularity r = Month \<and> period r = p) ?results)
            = (if auc_guard 30 (group_of cohort df p) then 1 else 0)"
    unfolding filter_append length_append results_count by simp
  have q: "\<And>p. length (filter (\<lambda>r. granularity r = Quarter \<and> period r = p) ?results)
            = (if auc_guard 30 (group_of cohort_q df p) then 1 else 0)"
    unfolding filter_append length_append results_count by simp
  show ?thesis
    using auc_results_eq [of up df] g m q grade_count [of _ _ up "\<lambda>r. (cohort r, grade r)" df]
    by blast
qed

section \<open>The rolling window\<close>

lemma take3_drop:
  assumes "k + 2 < length xs"
  shows "take 3 (drop k xs) = [xs ! k, xs ! (k + 1), xs ! (k + 2)]"
proof -
  have a: "drop k xs = xs ! k # drop (Suc k) xs"
    using assms by (simp add: Cons_nth_drop_Suc)
  have b: "drop (Suc k) xs = xs ! (Suc k) # drop (Suc (Suc k)) xs"
    using assms by (simp add: Cons_nth_drop_Suc)
  have c: "drop (Suc (Suc k)) xs = xs ! (Suc (Suc k)) # drop (Suc (Suc (Suc k))) xs"
    using assms by (simp add: Cons_nth_drop_Suc)
  have "take 3 (drop k xs) = take (Suc (Suc (Suc 0))) (drop k xs)"
    by (simp add: numeral_3_eq_3)
  also have "\<dots> = [xs ! k, xs ! Suc k, xs ! Suc (Suc k)]"
    unfolding a b c by simp
  finally show ?thesis by simp
qed

lemma window3_0: "xs \<noteq> [] \<Longrightarrow> window3 xs 0 = [xs ! 0]"
  by (cases xs) (simp_all add: window3_def)

lemma window3_1: "Suc 0 < length xs \<Longrightarrow> window3 xs (Suc 0) = [xs ! 0, xs ! Suc 0]"
proof -
  assume "Suc 0 < length xs"
  then obtain a b ys where "xs = a # b # ys"
    by (cases xs; cases "tl xs") auto
  then show ?thesis by (simp add: window3_def numeral_2_eq_2)
qed

lemma window3_ge2:
  assumes "2 \<le> i" and "i < length xs"
  shows "window3 xs i = [xs ! (i - 2), xs ! (i - 1), xs ! i]"
proof -
  from assms have k: "(i - 2) + 2 < length xs" by simp
  from assms(1) have "Suc i - (i - 2) = 3" by simp
  then have "window3 xs i = take 3 (drop (i - 2) xs)"
    by (simp add: window3_def)
  also have "\<dots> = [xs ! (i - 2), xs ! ((i - 2) + 1), xs ! ((i - 2) + 2)]"
    by (rule take3_drop [OF k])
  finally show ?thesis using assms(1)
    by (simp add: Suc_diff_Suc numeral_2_eq_2)
qed

lemma mean_window3:
  assumes "i < length xs"
  shows "mean (window3 xs i) = trailing_mean xs i"
proof -
  consider "i = 0" | "i = 1" | "2 \<le> i" by linarith
  then show ?thesis
  proof cases
    case 1
    with assms show ?thesis by (simp add: window3_0 mean_def trailing_mean_def)
  next
    case 2
    with assms show ?thesis by (simp add: window3_1 mean_def trailing_mean_def)
  next
    case 3
    with assms show ?thesis by (simp add: window3_ge2 mean_def trailing_mean_def)
  qed
qed

lemma rolling3_nth:
  "i < length xs \<Longrightarrow> rolling3 up xs ! i = py_round up (trailing_mean xs i) 4"
  by (simp add: rolling3_def mean_window3)

lemma trailing_mean_append:
  assumes "i < length xs"
  shows "trailing_mean (xs @ ys) i = trailing_mean xs i"
proof -
  consider "i = 0" | "i = 1" | "2 \<le> i" by linarith
  then show ?thesis
  proof cases
    case 1
    with assms show ?thesis by (simp add: trailing_mean_def nth_append)
  next
    case 2
    with assms have "xs \<noteq> []" by auto
    with assms 2 show ?thesis by (simp add: trailing_mean_def nth_append)
  next
    case 3
    with assms have "i - 2 < length xs" and "i - 1 < length xs" by auto
    with assms 3 show ?thesis by (simp add: trailing_mean_def nth_append)
  qed
qed

section \<open>Bin edges, histograms and the PSI sum\<close>

lemma edge_simps [simp]:
  "MInf \<le> b" "a \<le> PInf" "Fin x \<le> Fin y \<longleftrightarrow> x \<le> y" "\<not> Fin x \<le> MInf" "\<not> PInf \<le> Fin x"
  "\<not> PInf \<le> MInf" "Fin x < PInf" "MInf < Fin x" "MInf < PInf" "Fin x < Fin y \<longleftrightarrow> x < y"
  "\<not> a < MInf" "\<not> PInf < a"
  by (cases a; cases b; auto simp: less_eq_edge_def less_edge_def)+

lemma strict_sorted_remdups_adj:
  "sorted xs \<Longrightarrow> sorted_wrt (<) (remdups_adj (xs :: 'a :: linorder list))"
proof (induction xs rule: remdups_adj.induct)
  case (3 x y xs)
  show ?case
  proof (cases "x = y")
    case True
    with 3 show ?thesis by simp
  next
    case False
    from "3.prems" have xy: "x \<le> y" and ys: "\<forall>z\<in>set xs. y \<le> z" and s: "sorted (y # xs)"
      by auto
    from xy False have "x < y" by simp
    with ys have "\<forall>z\<in>set (y # xs). x < z" by auto
    with False 3 s show ?thesis by simp
  qed
qed simp_all

lemma np_unique_strict: "sorted_wrt (<) (np_unique es)"
  by (simp add: np_unique_def strict_sorted_remdups_adj)

lemma np_unique_set: "set (np_unique es) = set es"
  by (simp add: np_unique_def)

lemma sorted_hd_least:
  "sorted (xs :: 'a :: linorder list) \<Longrightarrow> m \<in> set xs \<Longrightarrow> \<forall>x\<in>set xs. m \<le> x \<Longrightarrow> hd xs = m"
  by (cases xs) (auto intro: antisym)

lemma sorted_last_greatest:
  "sorted (xs :: 'a :: linorder list) \<Longrightarrow> m \<in> set xs \<Longrightarrow> \<forall>x\<in>set xs. x \<le> m \<Longrightarrow> last xs = m"
proof (induction xs)
  case Nil
  then show ?case by simp
next
  case (Cons a xs)
  show ?case
  proof (cases "xs = []")
    case True
    with Cons.prems show ?thesis by simp
  next
    case False
    then have "last xs \<in> set xs" by simp
    with Cons.prems have "m \<le> last xs \<or> m \<in> set xs" by auto
    moreover have "last xs \<le> m" using Cons.prems \<open>last xs \<in> set xs\<close> by simp
    ultimately have "m \<in> set xs"
      using \<open>last xs \<in> set xs\<close> by (auto simp: antisym)
    with Cons False show ?thesis by simp
  qed
qed

lemma np_unique_hd: "MInf \<in> set es \<Longrightarrow> hd (np_unique es) = MInf"
  unfolding np_unique_def hd_remdups_adj
  by (rule sorted_hd_least) simp_all

lemma np_unique_last: "PInf \<in> set es \<Longrightarrow> last (np_unique es) = PInf"
  unfolding np_unique_def last_remdups_adj
  by (rule sorted_last_greatest) simp_all

lemma np_unique_length:
  assumes "MInf \<in> set es" and "PInf \<in> set es"
  shows "2 \<le> length (np_unique es)"
proof -
  have d: "distinct (np_unique es)"
    using np_unique_strict [of es] by (simp add: strict_sorted_iff)
  have "{MInf, PInf} \<subseteq> set (np_unique es)"
    using assms by (simp add: np_unique_set)
  then have "card {MInf, PInf} \<le> card (set (np_unique es))"
    by (intro card_mono) auto
  then show ?thesis
    using d by (simp add: distinct_card)
qed

lemma bin_exists:
  assumes "(es :: 'a :: linorder list) \<noteq> []" and "hd es \<le> v" and "v < last es"
  shows "\<exists>i. Suc i < length es \<and> es ! i \<le> v \<and> v < es ! Suc i"
  using assms
proof (induction es)
  case Nil
  then show ?case by simp
next
  case (Cons a es)
  show ?case
  proof (cases "es = []")
    case True
    with Cons.prems show ?thesis by simp
  next
    case False
    show ?thesis
    proof (cases "v < hd es")
      case True
      with Cons.prems False have "Suc 0 < length (a # es) \<and> (a # es) ! 0 \<le> v \<and> v < (a # es) ! Suc 0"
        by (cases es) auto
      then show ?thesis by blast
    next
      case n: False
      then have "hd es \<le> v" by simp
      moreover have "v < last es" using Cons.prems False by simp
      ultimately obtain i where "Suc i < length es \<and> es ! i \<le> v \<and> v < es ! Suc i"
        using Cons.IH False by blast
      then have "Suc (Suc i) < length (a # es) \<and> (a # es) ! Suc i \<le> v \<and> v < (a # es) ! Suc (Suc i)"
        by simp
      then show ?thesis by blast
    qed
  qed
qed

lemma bin_unique:
  assumes "sorted_wrt (<) (es :: 'a :: linorder list)"
    and "Suc i < length es" "es ! i \<le> v" "v < es ! Suc i"
    and "Suc j < length es" "es ! j \<le> v" "v < es ! Suc j"
  shows "i = j"
proof (rule ccontr)
  assume "i \<noteq> j"
  then consider "i < j" | "j < i" by linarith
  then show False
  proof cases
    case 1
    then have "es ! Suc i \<le> es ! j"
      using assms(1,5) sorted_wrt_nth_less [of "(<)" es "Suc i" j]
      by (cases "Suc i = j") auto
    with assms show False by auto
  next
    case 2
    then have "es ! Suc j \<le> es ! i"
      using assms(1,2) sorted_wrt_nth_less [of "(<)" es "Suc j" i]
      by (cases "Suc j = i") auto
    with assms show False by auto
  qed
qed

lemma in_bin_open:
  assumes "es \<noteq> []" "last es = PInf"
  shows "in_bin es i x \<longleftrightarrow> es ! i \<le> Fin x \<and> Fin x < es ! Suc i"
proof -
  have "es ! (length es - 1) = PInf"
    using assms by (simp add: last_conv_nth)
  then have "\<not> (Suc i = length es - 1 \<and> Fin x = es ! Suc i)"
    by auto
  then show ?thesis by (auto simp: in_bin_def)
qed

lemma one_bin:
  assumes "sorted_wrt (<) es" "hd es = MInf" "last es = PInf" "es \<noteq> []"
  shows "\<exists>!i. i < length es - 1 \<and> in_bin es i x"
proof -
  have "\<exists>i. Suc i < length es \<and> es ! i \<le> Fin x \<and> Fin x < es ! Suc i"
    by (rule bin_exists) (simp_all add: assms)
  then obtain i where i: "Suc i < length es" "es ! i \<le> Fin x" "Fin x < es ! Suc i"
    by blast
  show ?thesis
  proof (rule ex1I [of _ i])
    show "i < length es - 1 \<and> in_bin es i x"
      using i by (simp add: in_bin_open [OF assms(4,3)] less_diff_conv)
  next
    fix j assume "j < length es - 1 \<and> in_bin es j x"
    then have "Suc j < length es" "es ! j \<le> Fin x" "Fin x < es ! Suc j"
      by (simp_all add: in_bin_open [OF assms(4,3)] less_diff_conv)
    from bin_unique [OF assms(1) this i] show "j = i" .
  qed
qed

lemma length_linspace01: "length (linspace01 n) = Suc n"
  by (simp add: linspace01_def)

lemma psi_edges_eq: "dropna expected \<noteq> [] \<Longrightarrow> psi_edges qf expected = Inr (edges_of qf (dropna expected))"
  by (simp add: psi_edges_def np_quantile_def edges_of_def raw_edges_def Let_def)

lemma psi_edges_empty: "dropna expected = [] \<Longrightarrow> psi_edges qf expected = Inl IndexError"
  by (simp add: psi_edges_def np_quantile_def)

lemma update_ends:
  assumes "2 \<le> length xs"
  shows "xs[0 := a, length xs - 1 := z] = a # butlast (tl xs) @ [z]"
proof -
  from assms obtain x y zs where "xs = x # y # zs"
    by (cases xs; cases "tl xs") auto
  then obtain x ys where xs: "xs = x # ys" and ys: "ys \<noteq> []"
    by blast
  then have y: "ys = butlast ys @ [last ys]" by simp
  have "ys[length ys - 1 := z] = butlast ys @ [z]"
  proof -
    have "(butlast ys @ [last ys])[length (butlast ys) := z] = butlast ys @ [z]"
      by (simp add: list_update_append)
    with y show ?thesis by simp
  qed
  moreover have "(a # ys)[length ys := z] = a # ys[length ys - 1 := z]"
    using ys by (cases "length ys") simp_all
  ultimately show ?thesis using xs by simp
qed

lemma raw_edges_explicit:
  "raw_edges qf b = MInf # map (\<lambda>j. Fin (qf b (real j / 10))) [1..<10] @ [PInf]"
proof -
  let ?q = "\<lambda>j. Fin (qf b (real j / 10))"
  have m: "map Fin (map (qf b) (linspace01 PSI_N_BINS)) = map ?q [0..<Suc 10]"
    by (simp add: linspace01_def PSI_N_BINS_def)
  have l: "length (linspace01 PSI_N_BINS) = length (map ?q [0..<Suc 10])"
    by (simp add: linspace01_def PSI_N_BINS_def)
  have "raw_edges qf b = (map ?q [0..<Suc 10])[0 := MInf, length (map ?q [0..<Suc 10]) - 1 := PInf]"
    unfolding raw_edges_def m l ..
  also have "\<dots> = MInf # butlast (tl (map ?q [0..<Suc 10])) @ [PInf]"
    by (rule update_ends) simp
  also have "butlast (tl (map ?q [0..<Suc 10])) = map ?q (butlast (tl [0..<Suc 10]))"
    by (simp only: map_tl map_butlast)
  also have "butlast (tl [0..<Suc 10]) = [1..<10]"
    by code_simp
  finally show ?thesis .
qed

lemma edges_of_spec: "edges_of qf b = spec_edges qf b"
  by (simp add: edges_of_def spec_edges_def np_unique_def raw_edges_explicit)

lemma raw_edges_ends: "MInf \<in> set (raw_edges qf b) \<and> PInf \<in> set (raw_edges qf b)"
  by (simp add: raw_edges_explicit)

lemma edges_of_props:
  "sorted_wrt (<) (edges_of qf b) \<and> hd (edges_of qf b) = MInf \<and> last (edges_of qf b) = PInf \<and>
   2 \<le> length (edges_of qf b) \<and> edges_of qf b \<noteq> []"
proof -
  have l: "2 \<le> length (edges_of qf b)"
    unfolding edges_of_def using raw_edges_ends [of qf b] by (intro np_unique_length) simp_all
  then have "edges_of qf b \<noteq> []" by auto
  with l show ?thesis
    using raw_edges_ends [of qf b]
    by (simp add: edges_of_def np_unique_strict np_unique_hd np_unique_last)
qed

lemma histogram_eq: "sorted_wrt (<) es \<Longrightarrow> histogram vals es = Inr (bin_counts es vals)"
  by (simp add: histogram_def bin_counts_def strict_sorted_iff)

lemma filter_one:
  assumes "distinct is" and "i \<in> set is" and "Q i" and "\<And>j. j \<in> set is \<Longrightarrow> Q j \<Longrightarrow> j = i"
  shows "length (filter Q is) = 1"
proof -
  have "{j. Q j} \<inter> set is = {i}"
  proof
    show "{j. Q j} \<inter> set is \<subseteq> {i}" using assms(4) by blast
    show "{i} \<subseteq> {j. Q j} \<inter> set is" using assms(2,3) by blast
  qed
  with assms(1) show ?thesis by (simp add: distinct_length_filter)
qed

lemma counts_step:
  "(\<Sum>i\<leftarrow>is. length (filter (P i) (x # xs)))
     = length (filter (\<lambda>i. P i x) is) + (\<Sum>i\<leftarrow>is. length (filter (P i) xs))"
  by (induction "is") simp_all

lemma sum_bin_counts:
  assumes "sorted_wrt (<) es" "hd es = MInf" "last es = PInf" "es \<noteq> []"
  shows "sum_list (bin_counts es vals) = length vals"
proof (induction vals)
  case Nil
  then show ?case by (simp add: bin_counts_def)
next
  case (Cons x vals)
  from one_bin [OF assms, of x] obtain i where
    i: "i < length es - 1" "in_bin es i x"
    and u: "\<And>j. j < length es - 1 \<and> in_bin es j x \<Longrightarrow> j = i"
    by (rule ex1E) blast
  have "length (filter (\<lambda>i. in_bin es i x) [0..<length es - 1]) = 1"
  proof (rule filter_one [of _ i])
    show "distinct [0..<length es - 1]" by simp
    show "i \<in> set [0..<length es - 1]" using i by simp
    show "in_bin es i x" by (rule i)
    show "\<And>j. j \<in> set [0..<length es - 1] \<Longrightarrow> in_bin es j x \<Longrightarrow> j = i"
      using u by simp
  qed
  with Cons show ?case
    unfolding bin_counts_def counts_step by simp
qed

lemma proportions_pos:
  assumes "p \<in> set (proportions counts)"
  shows "0 < p"
proof -
  from assms obtain c where "p = real c / real (sum_list counts) + eps"
    by (auto simp: proportions_def)
  moreover have "0 \<le> real c / real (sum_list counts)" by simp
  ultimately show ?thesis by (simp add: eps_def add_nonneg_pos)
qed

lemma psi_term_nonneg:
  assumes "0 < a" "0 < e"
  shows "0 \<le> psi_term a e"
proof (cases "e \<le> a")
  case True
  with assms have "1 \<le> a / e" by simp
  then have "0 \<le> ln (a / e)" by simp
  with True show ?thesis by (simp add: psi_term_def)
next
  case False
  with assms have "a / e \<le> 1" and "0 < a / e" by simp_all
  then have "ln (a / e) \<le> 0" by simp
  with False show ?thesis
    by (simp add: psi_term_def mult_nonpos_nonpos)
qed

lemma psi_sum_nonneg:
  assumes "\<forall>p\<in>set as. 0 < p" "\<forall>p\<in>set es. 0 < p"
  shows "0 \<le> psi_sum as es"
  unfolding psi_sum_def
proof (rule sum_list_nonneg)
  fix t assume "t \<in> set (map (\<lambda>ae. psi_term (fst ae) (snd ae)) (zip as es))"
  then obtain a e where "(a, e) \<in> set (zip as es)" "t = psi_term a e" by auto
  then have "a \<in> set as" "e \<in> set es" by (auto dest: set_zip_leftD set_zip_rightD)
  with assms \<open>t = psi_term a e\<close> show "0 \<le> t" by (simp add: psi_term_nonneg)
qed

lemma sum_list_zero: "(\<And>x. x \<in> set xs \<Longrightarrow> f x = 0) \<Longrightarrow> (\<Sum>x\<leftarrow>xs. f x) = (0::real)"
  by (induction xs) simp_all

lemma psi_sum_same: "psi_sum xs xs = 0"
  unfolding psi_sum_def
  by (rule sum_list_zero) (auto simp: psi_term_def zip_same)

lemma ratios_pos:
  assumes "\<forall>p\<in>set as. 0 < p" "\<forall>p\<in>set es. (0::real) < p"
  shows "list_all (\<lambda>ae. 0 < fst ae / snd ae) (zip as es)"
  unfolding list_all_iff
proof
  fix ae assume m: "ae \<in> set (zip as es)"
  obtain a e where ae: "ae = (a, e)" by (cases ae)
  with m have "a \<in> set as" and "e \<in> set es"
    by (auto dest: set_zip_leftD set_zip_rightD)
  with assms ae show "0 < fst ae / snd ae" by simp
qed

lemma compute_psi_eq:
  assumes "dropna expected \<noteq> []" "dropna actual \<noteq> []"
  shows "compute_psi qf up expected actual = Inr (Some (py_round up (psi_raw qf expected actual) 6))"
proof -
  let ?es = "edges_of qf (dropna expected)"
  note p = edges_of_props [of qf "dropna expected"]
  have s: "sorted_wrt (<) ?es" using p by simp
  have se: "sum_list (bin_counts ?es (dropna expected)) = length (dropna expected)"
    by (rule sum_bin_counts) (simp_all add: p)
  have sa: "sum_list (bin_counts ?es (dropna actual)) = length (dropna actual)"
    by (rule sum_bin_counts) (simp_all add: p)
  have r: "list_all (\<lambda>ae. 0 < fst ae / snd ae) (zip (actual_pct qf expected actual) (expected_pct qf expected))"
    by (rule ratios_pos) (auto simp: actual_pct_def expected_pct_def proportions_pos)
  show ?thesis
    using assms r
    by (simp add: compute_psi_def psi_edges_eq histogram_eq [OF s] se sa Let_def
        psi_raw_def actual_pct_def expected_pct_def)
qed

lemma bin_counts_mset:
  "mset xs = mset ys \<Longrightarrow> bin_counts es xs = bin_counts es ys"
proof -
  assume m: "mset xs = mset ys"
  have "\<And>P. length (filter P xs) = length (filter P ys)"
  proof -
    fix P :: "real \<Rightarrow> bool"
    have "size (filter_mset P (mset xs)) = size (filter_mset P (mset ys))"
      using m by simp
    then show "length (filter P xs) = length (filter P ys)"
      by (simp only: mset_filter [symmetric] size_mset)
  qed
  then show ?thesis by (simp add: bin_counts_def)
qed

section \<open>The merge of the rolling values\<close>

lemma filter_key_unique:
  "distinct (map fst right) \<Longrightarrow> length (filter (\<lambda>m. fst m = p) right) \<le> 1"
proof (induction right)
  case Nil
  then show ?case by simp
next
  case (Cons m right)
  show ?case
  proof (cases "fst m = p")
    case True
    with Cons.prems have "p \<notin> fst ` set right" by auto
    then have "filter (\<lambda>m. fst m = p) right = []"
      by (auto simp: filter_empty_conv)
    with True show ?thesis by simp
  next
    case False
    with Cons show ?thesis by simp
  qed
qed

lemma merge_left_unique:
  assumes "distinct (map fst right)"
  shows "merge_left rows right = map (\<lambda>r. (r, lookup_rolled right (period r))) rows"
proof -
  have one: "(case filter (\<lambda>m. fst m = p) right of
                [] \<Rightarrow> [(r, None)]
              | ms \<Rightarrow> map (\<lambda>m. (r, Some (snd m))) ms) = [(r, lookup_rolled right p)]" for r :: cohort_row and p
  proof (cases "filter (\<lambda>m. fst m = p) right")
    case Nil
    then show ?thesis by (simp add: lookup_rolled_def)
  next
    case (Cons m ms)
    with filter_key_unique [OF assms, of p] have "ms = []" by simp
    with Cons show ?thesis by (simp add: lookup_rolled_def)
  qed
  show ?thesis
    unfolding merge_left_def by (induction rows) (simp_all add: one)
qed

lemma lookup_zip_nth:
  assumes "distinct ps" and "length ps = length rs" and "i < length ps"
  shows "lookup_rolled (zip ps rs) (ps ! i) = Some (rs ! i)"
  using assms
proof (induction ps rs arbitrary: i rule: list_induct2')
  case (4 p ps r rs)
  show ?case
  proof (cases i)
    case 0
    then show ?thesis by (simp add: lookup_rolled_def)
  next
    case (Suc j)
    with 4 have "ps ! j \<in> set ps" and "p \<notin> set ps" by auto
    then have "p \<noteq> ps ! j" by auto
    moreover have "lookup_rolled (zip ps rs) (ps ! j) = Some (rs ! j)"
      using 4 Suc by simp
    ultimately show ?thesis using Suc by (simp add: lookup_rolled_def)
  qed
qed simp_all

lemma lookup_zip_none:
  "p \<notin> set ps \<Longrightarrow> lookup_rolled (zip ps rs) p = None"
proof -
  assume "p \<notin> set ps"
  then have "filter (\<lambda>m. fst m = p) (zip ps rs) = []"
    by (auto simp: filter_empty_conv dest: set_zip_leftD)
  then show ?thesis by (simp add: lookup_rolled_def)
qed

lemma rows_of_periods:
  assumes "\<And>k g. period (mk k g) = k"
  shows "map period (concat (map (rows_of mk n) (map (\<lambda>k. (k, G k)) ks)))
     = filter (\<lambda>k. auc_guard n (G k)) ks"
  by (induction ks) (simp_all add: rows_of_def assms)

lemma gran_rows_periods:
  "map period (gran_rows up gr c df)
     = filter (\<lambda>k. auc_guard 30 (group_of c df k)) (sort (remdups (map c df)))"
  unfolding gran_rows_def groupby_alt
  by (rule rows_of_periods) (simp add: cohort_auc_row_def)

lemma gran_rows_sorted: "sorted_wrt (<) (map period (gran_rows up gr c df))"
proof -
  have "sorted_wrt (<) (sort (remdups (map c df)))"
    by (simp add: strict_sorted_iff)
  then show ?thesis
    unfolding gran_rows_periods by (rule sorted_wrt_filter)
qed

lemma filter_month:
  "filter (\<lambda>r. granularity r = Month) (gran_rows up Month c df @ gran_rows up Quarter c' df)
     = gran_rows up Month c df"
proof -
  have "filter (\<lambda>r. granularity r = Month) (gran_rows up Month c df) = gran_rows up Month c df"
    by (rule filter_True) (simp add: gran_rows_gran)
  moreover have "filter (\<lambda>r. granularity r = Month) (gran_rows up Quarter c' df) = []"
    by (auto simp: filter_empty_conv dest: gran_rows_gran)
  ultimately show ?thesis by simp
qed

lemma compute_auc_by_cohort_eq:
  assumes "M = gran_rows up Month cohort df" and "Q = gran_rows up Quarter cohort_q df"
  shows "compute_auc_by_cohort up upa df
     = (if M @ Q = [] then Inl KeyError else Inr (map (smoothed upa M) (M @ Q)))"
proof -
  have s: "sorted (map period M)"
    unfolding assms by (rule strict_sorted_imp_sorted) (rule gran_rows_sorted)
  have d: "distinct (map period M)"
    using gran_rows_sorted [of up Month cohort df] by (simp add: strict_sorted_iff assms)
  have f: "filter (\<lambda>r. granularity r = Month) (M @ Q) = M"
    unfolding assms by (rule filter_month)
  have k: "sort_key period M = M"
    by (rule sort_key_id_if_sorted [OF s])
  have dz: "distinct (map fst (zip (map period M) (rolling3 upa (map auc M))))"
    using d by (simp add: rolling3_def map_fst_zip)
  have a: "auc_results up df = Inr (M @ Q)"
    unfolding assms by (rule auc_results_eq)
  show ?thesis
    unfolding compute_auc_by_cohort_def a
    by (simp add: Let_def f k merge_left_unique [OF dz] smoothed_def comp_def del: filter_append)
qed

lemma smoothed_fields:
  "period (smoothed upa M r) = period r \<and> auc (smoothed upa M r) = auc r \<and>
   n_loans (smoothed upa M r) = n_loans r \<and> default_rate (smoothed upa M r) = default_rate r \<and>
   granularity (smoothed upa M r) = granularity r"
  by (simp add: smoothed_def fillna_def cohort_row.defs cohort_row_out.defs)

lemma smoothed_month:
  assumes "distinct (map period M)" and "i < length M"
  shows "auc_rolling3 (smoothed upa M (M ! i)) = py_round upa (trailing_mean (map auc M) i) 4"
proof -
  have "lookup_rolled (zip (map period M) (rolling3 upa (map auc M))) (map period M ! i)
      = Some (rolling3 upa (map auc M) ! i)"
    by (rule lookup_zip_nth) (simp_all add: assms rolling3_def)
  then show ?thesis
    using assms(2)
    by (simp add: smoothed_def fillna_def cohort_row.defs cohort_row_out.defs rolling3_nth)
qed

lemma gran_rows_auc: "r \<in> set (gran_rows up gr c df) \<Longrightarrow> \<exists>a. auc r = py_round up a 4"
  by (auto simp: gran_rows_def rows_of_def cohort_auc_row_def split: if_splits)

section \<open>The PSI table\<close>

lemma dropna_Some: "dropna (map Some xs) = xs"
  by (induction xs) simp_all

lemma psi_raw_Some:
  "psi_raw qf (map Some b) (map Some a)
     = psi_sum (proportions (bin_counts (edges_of qf b) a)) (proportions (bin_counts (edges_of qf b) b))"
  by (simp add: psi_raw_def actual_pct_def expected_pct_def dropna_Some)

lemma psi_body_eq:
  assumes "baseline df f \<noteq> []"
  shows "psi_body qf up df f (c, grp) =
     Inr (if 10 \<le> length (dropna (map (col f) grp))
          then [psi_out_row qf up df f c (dropna (map (col f) grp))] else [])"
proof (cases "10 \<le> length (dropna (map (col f) grp))")
  case True
  then have ne: "dropna (map (col f) grp) \<noteq> []" by auto
  have "compute_psi qf up (map Some (baseline df f)) (map Some (dropna (map (col f) grp)))
      = Inr (Some (py_round up (psi_raw qf (map Some (baseline df f)) (map Some (dropna (map (col f) grp)))) 6))"
    by (rule compute_psi_eq) (simp_all add: dropna_Some assms ne)
  with True show ?thesis
    by (simp add: psi_body_def Let_def psi_out_row_def psi_raw_Some)
next
  case False
  then show ?thesis by (simp add: psi_body_def Let_def)
qed

lemma psi_body_cases:
  "psi_body qf up df f (c, grp) =
     (if length (dropna (map (col f) grp)) < 10 then Inr []
      else if baseline df f = [] then Inl IndexError
      else Inr [psi_out_row qf up df f c (dropna (map (col f) grp))])"
proof (cases "baseline df f = []")
  case True
  then show ?thesis
    by (simp add: psi_body_def Let_def compute_psi_def psi_edges_empty dropna_Some)
next
  case False
  then show ?thesis
    by (simp add: psi_body_eq)
qed

lemma ex_nonempty: "dropna expected_ex \<noteq> [] \<and> dropna actual_ex \<noteq> []"
  by (simp add: expected_ex_def actual_ex_def)









section \<open>The sampler\<close>

lemma sorted_two_keys:
  fixes a b :: "'k::linorder"
  assumes "a < b" and "set ks \<subseteq> {a, b}"
  shows "sort (remdups ks) = (if a \<in> set ks then [a] else []) @ (if b \<in> set ks then [b] else [])"
proof (rule sorted_distinct_set_unique)
  show "sorted (sort (remdups ks))" by simp
  show "distinct (sort (remdups ks))" by simp
  show "sorted ((if a \<in> set ks then [a] else []) @ (if b \<in> set ks then [b] else []))"
    using assms(1) by (simp add: less_imp_le)
  show "distinct ((if a \<in> set ks then [a] else []) @ (if b \<in> set ks then [b] else []))"
    using assms(1) by auto
  show "set (sort (remdups ks)) = set ((if a \<in> set ks then [a] else []) @ (if b \<in> set ks then [b] else []))"
    using assms(2) by auto
qed

lemma groupby_two:
  fixes a b :: "'k::linorder"
  assumes "a < b" and "\<forall>r\<in>set xs. key r = a \<or> key r = b"
  shows "groupby key xs
     = (if filter (\<lambda>r. key r = a) xs = [] then [] else [(a, filter (\<lambda>r. key r = a) xs)])
     @ (if filter (\<lambda>r. key r = b) xs = [] then [] else [(b, filter (\<lambda>r. key r = b) xs)])"
proof -
  have s: "set (map key xs) \<subseteq> {a, b}"
    using assms(2) by auto
  have ea: "(filter (\<lambda>r. key r = a) xs = []) = (a \<notin> set (map key xs))"
    by (auto simp: filter_empty_conv)
  have eb: "(filter (\<lambda>r. key r = b) xs = []) = (b \<notin> set (map key xs))"
    by (auto simp: filter_empty_conv)
  show ?thesis
    unfolding groupby_def sorted_two_keys [OF assms(1) s] ea eb by simp
qed

lemma labels_less: "''monitoring (2015-18)'' < ''training (2012-14)''"
  by code_simp

lemma label_of_training: "(label_of y = ''training (2012-14)'') = (y \<in> set TRAIN_YEARS)"
  by (simp add: label_of_def)

lemma label_of_monitoring: "(label_of y = ''monitoring (2015-18)'') = (y \<notin> set TRAIN_YEARS)"
  by (simp add: label_of_def)

lemma df_out_label: "r \<in> set (df_out df) \<Longrightarrow> period_label r = label_of (s_year r)"
  by (auto simp: df_out_def)

lemma stratum_groups:
  "filter (\<lambda>r. period_label r = ''monitoring (2015-18)'') (df_out df) = stratum False df \<and>
   filter (\<lambda>r. period_label r = ''training (2012-14)'') (df_out df) = stratum True df"
  unfolding stratum_def
  by (auto intro!: filter_cong simp: df_out_label label_of_training label_of_monitoring)

lemma groupby_labels:
  "groupby period_label (df_out df)
     = (if stratum False df = [] then [] else [(''monitoring (2015-18)'', stratum False df)])
     @ (if stratum True df = [] then [] else [(''training (2012-14)'', stratum True df)])"
proof -
  have "\<forall>r\<in>set (df_out df). period_label r = ''monitoring (2015-18)'' \<or> period_label r = ''training (2012-14)''"
    by (auto simp: df_out_def label_of_def)
  from groupby_two [OF labels_less this] show ?thesis
    by (simp only: stratum_groups)
qed

lemma strata_partition: "mset (stratum False df) + mset (stratum True df) = mset (df_out df)"
proof -
  have "stratum False df = filter (\<lambda>r. \<not> s_year r \<in> set TRAIN_YEARS) (df_out df)"
    by (simp add: stratum_def)
  moreover have "stratum True df = filter (\<lambda>r. s_year r \<in> set TRAIN_YEARS) (df_out df)"
    by (simp add: stratum_def)
  ultimately show ?thesis
    by (simp add: union_commute)
qed

lemma strata_nonempty: "df \<noteq> [] \<Longrightarrow> stratum False df \<noteq> [] \<or> stratum True df \<noteq> []"
proof -
  assume "df \<noteq> []"
  then have "mset (df_out df) \<noteq> {#}" by (simp add: df_out_def)
  then show ?thesis
    using strata_partition [of df] by auto
qed

lemma sample_empty: "valid_rng rng \<Longrightarrow> sample rng [] = []"
proof -
  assume "valid_rng rng"
  then have "length (rng 42 0 0) = 0"
    unfolding valid_rng_def by blast
  then show ?thesis
    by (simp add: sample_def sample_positions_def)
qed

lemma positions_props:
  assumes "valid_rng rng"
  shows "length (sample_positions rng g) = min (length g) 5000 \<and>
         distinct (sample_positions rng g) \<and>
         set (sample_positions rng g) \<subseteq> {..<length g}"
  using assms unfolding valid_rng_def sample_positions_def
  by (meson min.cobounded1)

lemma mset_nths:
  assumes "distinct ps" and "set ps \<subseteq> {..<length g}"
  shows "mset (map (\<lambda>i. g ! i) ps) \<subseteq># mset g"
proof -
  have "mset ps \<subseteq># mset [0..<length g]"
  proof -
    have "mset ps = mset_set (set ps)"
      using assms(1) by (simp add: mset_set_set)
    moreover have "mset [0..<length g] = mset_set {..<length g}"
      by (simp add: lessThan_atLeast0)
    moreover have "mset_set (set ps) \<subseteq># mset_set {..<length g}"
      using assms(2) by (simp add: subset_imp_msubset_mset_set)
    ultimately show ?thesis by simp
  qed
  then have "image_mset (\<lambda>i. g ! i) (mset ps) \<subseteq># image_mset (\<lambda>i. g ! i) (mset [0..<length g])"
    by (rule image_mset_subseteq_mono)
  moreover have "image_mset (\<lambda>i. g ! i) (mset [0..<length g]) = mset g"
  proof -
    have "image_mset (\<lambda>i. g ! i) (mset [0..<length g]) = mset (map (\<lambda>i. g ! i) [0..<length g])"
      by simp
    then show ?thesis by (simp only: map_nth)
  qed
  ultimately show ?thesis by simp
qed

lemma mset_nths_all:
  assumes "distinct ps" and "set ps \<subseteq> {..<length g}" and "length ps = length g"
  shows "mset (map (\<lambda>i. g ! i) ps) = mset g"
proof -
  have "mset (map (\<lambda>i. g ! i) ps) \<subseteq># mset g"
    by (rule mset_nths [OF assms(1,2)])
  moreover have "size (mset (map (\<lambda>i. g ! i) ps)) = size (mset g)"
    using assms(3) by simp
  ultimately show ?thesis
    by (metis mset_subset_size subset_mset.less_le less_irrefl)
qed

lemma sample_props:
  assumes "valid_rng rng"
  shows "length (sample rng g) = min (length g) 5000 \<and>
         mset (sample rng g) \<subseteq># mset g \<and>
         (length g \<le> 5000 \<longrightarrow> mset (sample rng g) = mset g)"
proof -
  note p = positions_props [OF assms, of g]
  have 1: "length (sample rng g) = min (length g) 5000"
    using p by (simp add: sample_def)
  have 2: "mset (sample rng g) \<subseteq># mset g"
    unfolding sample_def using p by (intro mset_nths) simp_all
  have 3: "length g \<le> 5000 \<longrightarrow> mset (sample rng g) = mset g"
  proof
    assume "length g \<le> 5000"
    then have "length (sample_positions rng g) = length g"
      using p by simp
    then show "mset (sample rng g) = mset g"
      unfolding sample_def using p by (intro mset_nths_all) simp_all
  qed
  from 1 2 3 show ?thesis by blast
qed

lemma distributions_eq:
  assumes "valid_rng rng" and "df \<noteq> []"
  shows "compute_feature_distributions rng df
     = Inr (sample rng (stratum False df) @ sample rng (stratum True df))"
proof -
  note e = sample_empty [OF assms(1)]
  from strata_nonempty [OF assms(2)] show ?thesis
    by (auto simp: compute_feature_distributions_def Let_def groupby_labels e)
qed

lemma valid_last_first: "valid_rng last_first_rng"
  by (auto simp: valid_rng_def last_first_rng_def dest: in_set_takeD)

lemma sample_seed:
  "\<forall>len n. rng' 42 len n = rng 42 len n \<Longrightarrow> sample rng' g = sample rng g"
  by (simp add: sample_def sample_positions_def)

lemma strata_capped:
  "length (stratum False df_capped) = 8000 \<and> length (stratum True df_capped) = 3000"
  by (simp add: stratum_def df_out_def df_capped_def mk_loan_def TRAIN_YEARS_def)

section \<open>The claims about the AUC tables\<close>

text \<open>
  Claim C5 says that a group failing a guard is skipped with no row and no error, as the
  \<^verbatim>\<open>continue\<close> of lines 114 and 115 intends. On a frame whose groups all fail, here one
  month of 25 loans with both outcomes, the loop of \<^verbatim>\<open>compute_auc_by_cohort\<close> leaves
  \<^verbatim>\<open>results\<close> empty, the frame built from it has no columns, and line 125 raises
  \<^verbatim>\<open>KeyError\<close> at \<^verbatim>\<open>auc_df["granularity"]\<close>. The cohort by grade function returns on the
  same frame, with the one row of grade A, which has 20 loans.
\<close>

theorem all_groups_skipped_raises:
  "auc_results up df25 = Inr [] \<and>
   compute_auc_by_cohort up upa df25 = Inl KeyError \<and>
   compute_auc_by_cohort_grade up df25 =
     Inr [\<lparr>period = (2015, 3, 1), auc = 1, n_loans = 20, default_rate = 5 / 100,
            grade_seg = ''A''\<rparr>]"
proof -
  have a: "auc_results up df25 = Inr []"
    by code_simp
  have b: "compute_auc_by_cohort up upa df25 = Inl KeyError"
    by code_simp
  have c: "compute_auc_by_cohort_grade up df25 =
     Inr [\<lparr>period = (2015, 3, 1), auc = 1, n_loans = 20, default_rate = 5 / 100,
            grade_seg = ''A''\<rparr>]"
    by code_simp
  from a b c show ?thesis by blast
qed

text \<open>
  Claim C6. For a cohort that meets the AUC guard, the AUC is the rank-based one: the
  share of (default, non-default) pairs ranked correctly, a tied pair counting one half;
  it lies between 0 and 1, and so does the rounded value of the row. A perfectly
  separable cohort has AUC exactly 1, and a cohort whose scores are all equal has 1/2.
\<close>

theorem auc_unit_interval:
  assumes "auc_guard 30 grp"
  shows "roc_auc_score (map default_flag grp) (map pred_default_prob grp) = Inr (auc_raw grp) \<and>
         auc_body up gr (name, grp) = Inr [cohort_auc_row up gr name grp] \<and>
         auc (cohort_auc_row up gr name grp) = py_round up (auc_raw grp) 4 \<and>
         0 \<le> auc_raw grp \<and> auc_raw grp \<le> 1 \<and>
         0 \<le> auc (cohort_auc_row up gr name grp) \<and> auc (cohort_auc_row up gr name grp) \<le> 1 \<and>
         (separable grp \<longrightarrow> auc_raw grp = 1 \<and> auc (cohort_auc_row up gr name grp) = 1) \<and>
         (tied grp \<longrightarrow> auc_raw grp = 1 / 2 \<and> auc (cohort_auc_row up gr name grp) = 1 / 2)"
proof -
  from assms have two: "2 \<le> nunique (map default_flag grp)"
    by (simp add: auc_guard_def)
  have r: "auc (cohort_auc_row up gr name grp) = py_round up (auc_raw grp) 4"
    by (simp add: cohort_auc_row_def)
  have b: "0 \<le> auc_raw grp \<and> auc_raw grp \<le> 1"
    by (rule auc_raw_bounds [OF two])
  have s: "separable grp \<longrightarrow> auc_raw grp = 1 \<and> auc (cohort_auc_row up gr name grp) = 1"
  proof
    assume "separable grp"
    then have "auc_raw grp = 1"
      using auc_raw_separable [OF two] by (simp add: separable_def)
    then show "auc_raw grp = 1 \<and> auc (cohort_auc_row up gr name grp) = 1"
      unfolding r by (simp add: py_round_one)
  qed
  have t: "tied grp \<longrightarrow> auc_raw grp = 1 / 2 \<and> auc (cohort_auc_row up gr name grp) = 1 / 2"
  proof
    assume "tied grp"
    then have "auc_raw grp = 1 / 2"
      using auc_raw_tied [OF two] by simp
    then show "auc_raw grp = 1 / 2 \<and> auc (cohort_auc_row up gr name grp) = 1 / 2"
      unfolding r by (simp only: py_round_half)
  qed
  have body: "auc_body up gr (name, grp) = Inr [cohort_auc_row up gr name grp]"
    using auc_body_eq [of up gr "(name, grp)"] assms by simp
  have rb: "0 \<le> auc (cohort_auc_row up gr name grp) \<and> auc (cohort_auc_row up gr name grp) \<le> 1"
    unfolding r using b py_round_nonneg [of "auc_raw grp" up 4] py_round_le_one [of "auc_raw grp" up 4]
    by simp
  show ?thesis
    using roc_auc_defined [OF two] body r b rb s t by blast
qed

theorem auc_unit_interval_witness:
  "\<forall>up. auc_guard 30 grp30 \<and> separable grp30 \<and>
     roc_auc_score (map default_flag grp30) (map pred_default_prob grp30) = Inr 1 \<and>
     auc (cohort_auc_row up Month (2015, 1, 1) grp30) = 1"
proof
  fix up :: ties
  have g: "auc_guard 30 grp30"
    by code_simp
  have s: "separable grp30"
    by (auto simp: separable_def grp30_def mk_loan_def)
  from auc_unit_interval [OF g, of up Month "(2015, 1, 1)"] g s
  show "auc_guard 30 grp30 \<and> separable grp30 \<and>
     roc_auc_score (map default_flag grp30) (map pred_default_prob grp30) = Inr 1 \<and>
     auc (cohort_auc_row up Month (2015, 1, 1) grp30) = 1"
    by (simp add: py_round_one)
qed

section \<open>The claims about the rolling AUC\<close>

text \<open>
  Claim C4, as the code has it. \<open>M\<close> is the list of monthly rows that passed the guard
  and \<open>Q\<close> the list of quarterly ones; the loop leaves \<open>M @ Q\<close>, the monthly rows of it
  are \<open>M\<close>, and \<open>M\<close> is in strictly increasing period order. When some row exists,
  \<^verbatim>\<open>compute_auc_by_cohort\<close> returns one output row per row, and the output row of the
  monthly row at position \<open>i\<close> keeps its period and AUC and carries in
  \<^verbatim>\<open>auc_rolling3\<close> the trailing mean of the monthly AUC series at \<open>i\<close> (the first value;
  the mean of the first two; from the third on the mean of exactly the 3 trailing
  values), rounded to 4 decimals: a multiple of 0.0001 at most 0.00005 away from the
  mean. The first smoothed value is the first raw value. Skipped months are absent
  from \<open>M\<close>, so the window runs over the months present. The series
  0.70, 0.68, 0.66, 0.64 yields 0.70, 0.69, 0.68, 0.66.
\<close>

theorem monthly_rolling_rows:
  assumes "M = gran_rows up Month cohort df" and "Q = gran_rows up Quarter cohort_q df"
    and "M @ Q \<noteq> []"
  shows "auc_results up df = Inr (M @ Q) \<and>
         filter (\<lambda>r. granularity r = Month) (M @ Q) = M \<and>
         sorted_wrt (<) (map period M) \<and>
         (\<exists>out. compute_auc_by_cohort up upa df = Inr out \<and> length out = length M + length Q \<and>
            (\<forall>i<length M.
               period (out ! i) = period (M ! i) \<and> granularity (out ! i) = Month \<and>
               auc (out ! i) = auc (M ! i) \<and>
               auc_rolling3 (out ! i) = py_round upa (trailing_mean (map auc M) i) 4 \<and>
               \<bar>auc_rolling3 (out ! i) - trailing_mean (map auc M) i\<bar> \<le> 1 / 20000 \<and>
               (\<exists>k::int. auc_rolling3 (out ! i) = real_of_int k / 10 ^ 4)) \<and>
            (M \<noteq> [] \<longrightarrow> auc_rolling3 (out ! 0) = auc (M ! 0))) \<and>
         rolling3 upa [70 / 100, 68 / 100, 66 / 100, 64 / 100] = [70 / 100, 69 / 100, 68 / 100, 66 / 100]"
proof -
  let ?out = "map (smoothed upa M) (M @ Q)"
  have a: "auc_results up df = Inr (M @ Q)"
    unfolding assms(1,2) by (rule auc_results_eq)
  have f: "filter (\<lambda>r. granularity r = Month) (M @ Q) = M"
    unfolding assms(1,2) by (rule filter_month)
  have s: "sorted_wrt (<) (map period M)"
    unfolding assms(1) by (rule gran_rows_sorted)
  then have d: "distinct (map period M)"
    by (simp add: strict_sorted_iff)
  have c: "compute_auc_by_cohort up upa df = Inr ?out"
    using compute_auc_by_cohort_eq [OF assms(1,2), of upa] assms(3) by simp
  have l: "length ?out = length M + length Q" by simp
  have row: "period (?out ! i) = period (M ! i) \<and> granularity (?out ! i) = Month \<and>
      auc (?out ! i) = auc (M ! i) \<and>
      auc_rolling3 (?out ! i) = py_round upa (trailing_mean (map auc M) i) 4 \<and>
      \<bar>auc_rolling3 (?out ! i) - trailing_mean (map auc M) i\<bar> \<le> 1 / 20000 \<and>
      (\<exists>k::int. auc_rolling3 (?out ! i) = real_of_int k / 10 ^ 4)" if i: "i < length M" for i
  proof -
    have o: "?out ! i = smoothed upa M (M ! i)"
      using i by (simp add: nth_append)
    have "M ! i \<in> set (gran_rows up Month cohort df)"
      using i assms(1) by simp
    then have g: "granularity (M ! i) = Month" by (rule gran_rows_gran)
    have r: "auc_rolling3 (?out ! i) = py_round upa (trailing_mean (map auc M) i) 4"
      unfolding o by (rule smoothed_month [OF d i])
    have "\<bar>py_round upa (trailing_mean (map auc M) i) 4 - trailing_mean (map auc M) i\<bar> \<le> 1 / (2 * 10 ^ 4)"
      by (rule py_round_dist)
    then have b: "\<bar>auc_rolling3 (?out ! i) - trailing_mean (map auc M) i\<bar> \<le> 1 / 20000"
      unfolding r by simp
    have k: "\<exists>k::int. auc_rolling3 (?out ! i) = real_of_int k / 10 ^ 4"
      unfolding r by (rule py_round_decimal)
    from o g r b k smoothed_fields [of upa M "M ! i"] show ?thesis by simp
  qed
  have first: "M \<noteq> [] \<longrightarrow> auc_rolling3 (?out ! 0) = auc (M ! 0)"
  proof
    assume ne: "M \<noteq> []"
    then have i: "0 < length M" by simp
    then have "M ! 0 \<in> set (gran_rows up Month cohort df)"
      using assms(1) by simp
    then obtain a0 where a0: "auc (M ! 0) = py_round up a0 4"
      using gran_rows_auc by blast
    have "auc_rolling3 (?out ! 0) = py_round upa (trailing_mean (map auc M) 0) 4"
      using row [OF i] by simp
    also have "trailing_mean (map auc M) 0 = auc (M ! 0)"
      using i by (simp add: trailing_mean_def)
    also have "py_round upa (auc (M ! 0)) 4 = auc (M ! 0)"
      unfolding a0 by (rule py_round_idem)
    finally show "auc_rolling3 (?out ! 0) = auc (M ! 0)" .
  qed
  have e: "rolling3 upa [70 / 100, 68 / 100, 66 / 100, 64 / 100] = [70 / 100, 69 / 100, 68 / 100, 66 / 100 :: real]"
    by code_simp
  from c l row first have "\<exists>out. compute_auc_by_cohort up upa df = Inr out \<and> length out = length M + length Q \<and>
            (\<forall>i<length M.
               period (out ! i) = period (M ! i) \<and> granularity (out ! i) = Month \<and>
               auc (out ! i) = auc (M ! i) \<and>
               auc_rolling3 (out ! i) = py_round upa (trailing_mean (map auc M) i) 4 \<and>
               \<bar>auc_rolling3 (out ! i) - trailing_mean (map auc M) i\<bar> \<le> 1 / 20000 \<and>
               (\<exists>k::int. auc_rolling3 (out ! i) = real_of_int k / 10 ^ 4)) \<and>
            (M \<noteq> [] \<longrightarrow> auc_rolling3 (out ! 0) = auc (M ! 0))"
    by blast
  with a f s e show ?thesis by blast
qed

theorem monthly_rolling_rows_witness:
  "\<forall>up upa. \<exists>out. compute_auc_by_cohort up upa df_q1 = Inr out \<and> length out = 3 \<and>
      granularity (out ! 1) = Month \<and> period (out ! 1) = (2015, 2, 1) \<and> auc (out ! 1) = 0 \<and>
      auc_rolling3 (out ! 1) = 1 / 2 \<and> auc_rolling3 (out ! 0) = 1"
proof (intro allI)
  fix up upa :: ties
  define M where "M = gran_rows up Month cohort df_q1"
  define Q where "Q = gran_rows up Quarter cohort_q df_q1"
  have m: "M = [\<lparr>period = (2015, 1, 1), auc = 1, n_loans = 30, default_rate = 333 / 10000,
                  granularity = Month\<rparr>,
                \<lparr>period = (2015, 2, 1), auc = 0, n_loans = 30, default_rate = 333 / 10000,
                  granularity = Month\<rparr>]"
    unfolding M_def by code_simp
  have q: "length Q = 1"
    unfolding Q_def by code_simp
  have ne: "M @ Q \<noteq> []" using m by simp
  from monthly_rolling_rows [OF M_def Q_def ne, of upa] obtain out where
    c: "compute_auc_by_cohort up upa df_q1 = Inr out" and l: "length out = length M + length Q"
    and r: "\<And>i. i < length M \<Longrightarrow>
               period (out ! i) = period (M ! i) \<and> granularity (out ! i) = Month \<and>
               auc (out ! i) = auc (M ! i) \<and>
               auc_rolling3 (out ! i) = py_round upa (trailing_mean (map auc M) i) 4"
    and f: "M \<noteq> [] \<longrightarrow> auc_rolling3 (out ! 0) = auc (M ! 0)"
    by blast
  have t: "trailing_mean (map auc M) 1 = 1 / 2"
    unfolding m by (simp add: trailing_mean_def)
  have "1 < length M" using m by simp
  from r [OF this] have "period (out ! 1) = (2015, 2, 1) \<and> granularity (out ! 1) = Month \<and>
      auc (out ! 1) = 0 \<and> auc_rolling3 (out ! 1) = 1 / 2"
    unfolding t by (simp add: m py_round_half)
  moreover have "auc_rolling3 (out ! 0) = 1" using f by (simp add: m)
  moreover have "length out = 3" using l q by (simp add: m)
  ultimately show "\<exists>out. compute_auc_by_cohort up upa df_q1 = Inr out \<and> length out = 3 \<and>
      granularity (out ! 1) = Month \<and> period (out ! 1) = (2015, 2, 1) \<and> auc (out ! 1) = 0 \<and>
      auc_rolling3 (out ! 1) = 1 / 2 \<and> auc_rolling3 (out ! 0) = 1"
    using c by blast
qed

text \<open>
  Claim C4 as stated, without the rounding, fails: the third smoothed value of
  0.7, 0.7, 0.7001 is 0.7, while the mean of the three values is 0.70003...
\<close>

theorem rolling3_unrounded_counterexample:
  "\<forall>upa. rolling3 upa [7 / 10, 7 / 10, 7001 / 10000] ! 2 \<noteq> (7 / 10 + 7 / 10 + 7001 / 10000) / 3"
proof
  fix upa :: ties
  have "rolling3 upa [7 / 10, 7 / 10, 7001 / 10000] = [7 / 10, 7 / 10, 7 / 10 :: real]"
    by code_simp
  then show "rolling3 upa [7 / 10, 7 / 10, 7001 / 10000] ! 2 \<noteq> (7 / 10 + 7 / 10 + 7001 / 10000) / 3"
    by simp
qed

text \<open>
  Claim C1 says that a quarterly row keeps its own AUC in \<^verbatim>\<open>auc_rolling3\<close>. The merge of
  line 127 joins on \<^verbatim>\<open>period\<close> alone, and the key of a quarter is the key of its first
  month: on two months of 30 loans in the first quarter of 2015 the quarterly row has
  AUC 0.5 and carries the rolling value 1.0 of January.
\<close>

theorem quarter_row_takes_monthly_rolling:
  "compute_auc_by_cohort up upa df_q1 =
     Inr [\<lparr>period = (2015, 1, 1), auc = 1, n_loans = 30, default_rate = 333 / 10000,
            granularity = Month, auc_rolling3 = 1\<rparr>,
          \<lparr>period = (2015, 2, 1), auc = 0, n_loans = 30, default_rate = 333 / 10000,
            granularity = Month, auc_rolling3 = 1 / 2\<rparr>,
          \<lparr>period = (2015, 1, 1), auc = 1 / 2, n_loans = 60, default_rate = 333 / 10000,
            granularity = Quarter, auc_rolling3 = 1\<rparr>]"
  by code_simp

section \<open>The claims about PSI\<close>

text \<open>
  Claim C2. The bin edges of a feature are made from its baseline, the non-null values
  of the training years, alone: \<^verbatim>\<open>np.quantile\<close> raises on an empty baseline, and
  otherwise the edges are the quantile cut points at 1/10, ..., 9/10 between \<open>-\<infinity>\<close> and
  \<open>+\<infinity>\<close>, sorted, with duplicates collapsed. They increase strictly, every real value
  lies in exactly one bin, the histogram over them never raises, and the row of every
  cohort that has at least 10 values counts both the cohort and the baseline in the bins
  of these same edges.
\<close>

theorem psi_edges_from_baseline:
  "psi_edges qf (map Some (baseline df f))
     = (if baseline df f = [] then Inl IndexError else Inr (edges_of qf (baseline df f))) \<and>
   edges_of qf (baseline df f) = spec_edges qf (baseline df f) \<and>
   sorted_wrt (<) (edges_of qf (baseline df f)) \<and>
   hd (edges_of qf (baseline df f)) = MInf \<and> last (edges_of qf (baseline df f)) = PInf \<and>
   (\<forall>x. \<exists>!i. i < length (edges_of qf (baseline df f)) - 1 \<and> in_bin (edges_of qf (baseline df f)) i x) \<and>
   (\<forall>vals. histogram vals (edges_of qf (baseline df f)) = Inr (bin_counts (edges_of qf (baseline df f)) vals)) \<and>
   (\<forall>c grp. psi_body qf up df f (c, grp) =
      (if length (dropna (map (col f) grp)) < 10 then Inr []
       else if baseline df f = [] then Inl IndexError
       else Inr [\<lparr>psi_period = c, psi_feature = f,
                  psi = Some (py_round up (psi_sum
                     (proportions (bin_counts (edges_of qf (baseline df f)) (dropna (map (col f) grp))))
                     (proportions (bin_counts (edges_of qf (baseline df f)) (baseline df f)))) 6),
                  n_obs = length (dropna (map (col f) grp))\<rparr>]))"
proof -
  note p = edges_of_props [of qf "baseline df f"]
  have a: "psi_edges qf (map Some (baseline df f))
     = (if baseline df f = [] then Inl IndexError else Inr (edges_of qf (baseline df f)))"
    using psi_edges_eq [of "map Some (baseline df f)" qf] psi_edges_empty [of "map Some (baseline df f)" qf]
    by (simp add: dropna_Some)
  have b: "\<forall>x. \<exists>!i. i < length (edges_of qf (baseline df f)) - 1 \<and> in_bin (edges_of qf (baseline df f)) i x"
    using p by (intro allI one_bin) simp_all
  have c: "\<forall>vals. histogram vals (edges_of qf (baseline df f)) = Inr (bin_counts (edges_of qf (baseline df f)) vals)"
    using p by (simp add: histogram_eq)
  have d: "\<forall>c grp. psi_body qf up df f (c, grp) =
      (if length (dropna (map (col f) grp)) < 10 then Inr []
       else if baseline df f = [] then Inl IndexError
       else Inr [\<lparr>psi_period = c, psi_feature = f,
                  psi = Some (py_round up (psi_sum
                     (proportions (bin_counts (edges_of qf (baseline df f)) (dropna (map (col f) grp))))
                     (proportions (bin_counts (edges_of qf (baseline df f)) (baseline df f)))) 6),
                  n_obs = length (dropna (map (col f) grp))\<rparr>])"
    by (simp only: psi_body_cases psi_out_row_def) simp
  from a b c d p edges_of_spec [of qf "baseline df f"] show ?thesis by blast
qed

theorem psi_edges_from_baseline_witness:
  "\<forall>up. psi_edges quantile_linear (map Some (baseline df_psi Dti)) = Inr [MInf, Fin 20, PInf] \<and>
     edges_of quantile_linear (baseline df_psi Dti) = [MInf, Fin 20, PInf] \<and>
     psi_body quantile_linear up df_psi Dti ((2015, 1, 1), group_of cohort df_psi (2015, 1, 1)) = Inr [] \<and>
     (\<exists>v. psi_body quantile_linear up df_psi Dti ((2013, 5, 1), group_of cohort df_psi (2013, 5, 1))
        = Inr [\<lparr>psi_period = (2013, 5, 1), psi_feature = Dti, psi = Some v, n_obs = 10\<rparr>])"
proof
  fix up :: ties
  have a: "baseline df_psi Dti \<noteq> []"
    by code_simp
  have b: "spec_edges quantile_linear (baseline df_psi Dti) = [MInf, Fin 20, PInf]"
    by code_simp
  have c: "length (dropna (map (col Dti) (group_of cohort df_psi (2015, 1, 1)))) = 9"
    by code_simp
  have d: "length (dropna (map (col Dti) (group_of cohort df_psi (2013, 5, 1)))) = 10"
    by code_simp
  note t = psi_edges_from_baseline [of quantile_linear df_psi Dti up]
  have 1: "psi_edges quantile_linear (map Some (baseline df_psi Dti)) = Inr [MInf, Fin 20, PInf]"
    using t a b by simp
  have 2: "edges_of quantile_linear (baseline df_psi Dti) = [MInf, Fin 20, PInf]"
    using t b by simp
  have 3: "psi_body quantile_linear up df_psi Dti ((2015, 1, 1), group_of cohort df_psi (2015, 1, 1)) = Inr []"
    using t c by simp
  have 4: "\<exists>v. psi_body quantile_linear up df_psi Dti ((2013, 5, 1), group_of cohort df_psi (2013, 5, 1))
        = Inr [\<lparr>psi_period = (2013, 5, 1), psi_feature = Dti, psi = Some v, n_obs = 10\<rparr>]"
    using t a d by simp
  from 1 2 3 4
  show "psi_edges quantile_linear (map Some (baseline df_psi Dti)) = Inr [MInf, Fin 20, PInf] \<and>
     edges_of quantile_linear (baseline df_psi Dti) = [MInf, Fin 20, PInf] \<and>
     psi_body quantile_linear up df_psi Dti ((2015, 1, 1), group_of cohort df_psi (2015, 1, 1)) = Inr [] \<and>
     (\<exists>v. psi_body quantile_linear up df_psi Dti ((2013, 5, 1), group_of cohort df_psi (2013, 5, 1))
        = Inr [\<lparr>psi_period = (2013, 5, 1), psi_feature = Dti, psi = Some v, n_obs = 10\<rparr>])"
    by blast
qed

text \<open>
  Claim C3. For an expected and an actual population with a non-null value each,
  \<^verbatim>\<open>compute_psi\<close> returns the sum of the terms
  \<open>(actual_pct - expected_pct) * ln (actual_pct / expected_pct)\<close> over the bins, rounded to
  6 decimals. Every term is non-negative, so the sum and the rounded value are. When
  the smoothed proportions of the two populations agree bin by bin, and so when the
  actual values are the expected values in any order, the result is exactly 0.
\<close>

theorem psi_nonneg_and_zero:
  assumes "dropna expected \<noteq> []" and "dropna actual \<noteq> []"
  shows "compute_psi qf up expected actual = Inr (Some (py_round up (psi_raw qf expected actual) 6)) \<and>
         (\<forall>ae\<in>set (zip (actual_pct qf expected actual) (expected_pct qf expected)). 0 \<le> psi_term (fst ae) (snd ae)) \<and>
         0 \<le> psi_raw qf expected actual \<and> 0 \<le> py_round up (psi_raw qf expected actual) 6 \<and>
         (actual_pct qf expected actual = expected_pct qf expected \<longrightarrow> compute_psi qf up expected actual = Inr (Some 0)) \<and>
         (mset (dropna actual) = mset (dropna expected) \<longrightarrow> compute_psi qf up expected actual = Inr (Some 0))"
proof -
  have e: "compute_psi qf up expected actual = Inr (Some (py_round up (psi_raw qf expected actual) 6))"
    by (rule compute_psi_eq [OF assms])
  have pa: "\<forall>p\<in>set (actual_pct qf expected actual). 0 < p"
    by (simp add: actual_pct_def proportions_pos)
  have pe: "\<forall>p\<in>set (expected_pct qf expected). 0 < p"
    by (simp add: expected_pct_def proportions_pos)
  have t: "\<forall>ae\<in>set (zip (actual_pct qf expected actual) (expected_pct qf expected)). 0 \<le> psi_term (fst ae) (snd ae)"
  proof
    fix ae assume m: "ae \<in> set (zip (actual_pct qf expected actual) (expected_pct qf expected))"
    obtain a b where ae: "ae = (a, b)" by (cases ae)
    with m have "a \<in> set (actual_pct qf expected actual)" and "b \<in> set (expected_pct qf expected)"
      by (auto dest: set_zip_leftD set_zip_rightD)
    with pa pe ae show "0 \<le> psi_term (fst ae) (snd ae)"
      by (simp add: psi_term_nonneg)
  qed
  have n: "0 \<le> psi_raw qf expected actual"
    unfolding psi_raw_def by (rule psi_sum_nonneg [OF pa pe])
  have z: "actual_pct qf expected actual = expected_pct qf expected \<longrightarrow> compute_psi qf up expected actual = Inr (Some 0)"
    by (simp add: e psi_raw_def psi_sum_same py_round_zero)
  have "mset (dropna actual) = mset (dropna expected) \<longrightarrow> actual_pct qf expected actual = expected_pct qf expected"
    using bin_counts_mset [of "dropna actual" "dropna expected" "edges_of qf (dropna expected)"]
    by (simp add: actual_pct_def expected_pct_def)
  with z have s: "mset (dropna actual) = mset (dropna expected) \<longrightarrow> compute_psi qf up expected actual = Inr (Some 0)"
    by blast
  from e t n py_round_nonneg [OF n, of up 6] z s show ?thesis by blast
qed

theorem psi_nonneg_and_zero_witness:
  "\<forall>qf up. dropna expected_ex \<noteq> [] \<and> dropna actual_ex \<noteq> [] \<and>
     compute_psi qf up expected_ex actual_ex = Inr (Some (py_round up (psi_raw qf expected_ex actual_ex) 6)) \<and>
     0 \<le> py_round up (psi_raw qf expected_ex actual_ex) 6 \<and>
     compute_psi qf up expected_ex expected_ex = Inr (Some 0)"
proof (intro allI)
  fix qf :: quantile_fn and up :: ties
  have a: "dropna expected_ex \<noteq> []" and b: "dropna actual_ex \<noteq> []"
    using ex_nonempty by simp_all
  from psi_nonneg_and_zero [OF a b, of qf up] psi_nonneg_and_zero [OF a a, of qf up] a b
  show "dropna expected_ex \<noteq> [] \<and> dropna actual_ex \<noteq> [] \<and>
     compute_psi qf up expected_ex actual_ex = Inr (Some (py_round up (psi_raw qf expected_ex actual_ex) 6)) \<and>
     0 \<le> py_round up (psi_raw qf expected_ex actual_ex) 6 \<and>
     compute_psi qf up expected_ex expected_ex = Inr (Some 0)"
    by blast
qed

text \<open>
  Claim C8. When the baseline and the cohort have a non-null value each,
  \<^verbatim>\<open>compute_psi\<close> returns a number: the collapsed edges are at least two and distinct,
  both histograms are computed, both sums of counts are positive, every smoothed
  proportion is positive, and so is every quotient whose logarithm is taken.
\<close>

theorem compute_psi_total:
  assumes "dropna expected \<noteq> []" and "dropna actual \<noteq> []"
  shows "\<exists>es e_counts a_counts v.
           psi_edges qf expected = Inr es \<and> 2 \<le> length es \<and> distinct es \<and>
           histogram (dropna expected) es = Inr e_counts \<and>
           histogram (dropna actual) es = Inr a_counts \<and>
           0 < sum_list e_counts \<and> 0 < sum_list a_counts \<and>
           (\<forall>p\<in>set (proportions e_counts). 0 < p) \<and>
           (\<forall>p\<in>set (proportions a_counts). 0 < p) \<and>
           list_all (\<lambda>ae. 0 < fst ae / snd ae) (zip (proportions a_counts) (proportions e_counts)) \<and>
           compute_psi qf up expected actual = Inr (Some v)"
proof -
  let ?es = "edges_of qf (dropna expected)"
  let ?e = "bin_counts ?es (dropna expected)"
  let ?a = "bin_counts ?es (dropna actual)"
  note p = edges_of_props [of qf "dropna expected"]
  have s: "sorted_wrt (<) ?es" using p by simp
  have se: "sum_list ?e = length (dropna expected)"
    by (rule sum_bin_counts) (simp_all add: p)
  have sa: "sum_list ?a = length (dropna actual)"
    by (rule sum_bin_counts) (simp_all add: p)
  have 1: "psi_edges qf expected = Inr ?es" by (rule psi_edges_eq [OF assms(1)])
  have 2: "2 \<le> length ?es \<and> distinct ?es"
    using p strict_sorted_iff [of ?es] by simp
  have 3: "histogram (dropna expected) ?es = Inr ?e" by (rule histogram_eq [OF s])
  have 4: "histogram (dropna actual) ?es = Inr ?a" by (rule histogram_eq [OF s])
  have 5: "0 < sum_list ?e" using se assms(1) by simp
  have 6: "0 < sum_list ?a" using sa assms(2) by simp
  have 7: "\<forall>p\<in>set (proportions ?e). 0 < p" by (simp add: proportions_pos)
  have 8: "\<forall>p\<in>set (proportions ?a). 0 < p" by (simp add: proportions_pos)
  have 9: "list_all (\<lambda>ae. 0 < fst ae / snd ae) (zip (proportions ?a) (proportions ?e))"
    by (rule ratios_pos [OF 8 7])
  have 10: "compute_psi qf up expected actual = Inr (Some (py_round up (psi_raw qf expected actual) 6))"
    by (rule compute_psi_eq [OF assms])
  from 1 2 3 4 5 6 7 8 9 10 show ?thesis by blast
qed

theorem compute_psi_total_witness:
  "\<forall>qf up. dropna expected_ex \<noteq> [] \<and> dropna actual_ex \<noteq> [] \<and>
     (\<exists>es v. psi_edges qf expected_ex = Inr es \<and> 2 \<le> length es \<and>
        compute_psi qf up expected_ex actual_ex = Inr (Some v))"
proof (intro allI)
  fix qf :: quantile_fn and up :: ties
  have a: "dropna expected_ex \<noteq> []" and b: "dropna actual_ex \<noteq> []"
    using ex_nonempty by simp_all
  from compute_psi_total [OF a b, of qf up] a b
  show "dropna expected_ex \<noteq> [] \<and> dropna actual_ex \<noteq> [] \<and>
     (\<exists>es v. psi_edges qf expected_ex = Inr es \<and> 2 \<le> length es \<and>
        compute_psi qf up expected_ex actual_ex = Inr (Some v))"
    by blast
qed







section \<open>The claim about the distribution sampler\<close>

text \<open>
  Claim C9, for a frame with at least one row and a generator that samples without
  replacement. \<^verbatim>\<open>compute_feature_distributions\<close> returns the sample of the monitoring
  stratum followed by the sample of the training stratum; every row of the frame lies
  in exactly one of the two. The sample of a stratum is taken at the positions the
  generator draws for the seed 42, the size of the stratum and the minimum of that size
  and 5000: these positions are distinct and inside the stratum, so the sample has
  exactly that many rows, each taken once; a stratum of at most 5000 rows (3000, say)
  is returned in full, in some order, and one of 8000 rows yields 5000. The result
  depends on the generator through its draws for the seed 42 alone.
\<close>

theorem sampler_strata:
  assumes "valid_rng rng" and "df \<noteq> []"
  shows "compute_feature_distributions rng df
           = Inr (sample rng (stratum False df) @ sample rng (stratum True df)) \<and>
         mset (stratum False df) + mset (stratum True df) = mset (df_out df) \<and>
         (\<forall>t. sample rng (stratum t df)
                 = map (\<lambda>i. stratum t df ! i)
                     (rng 42 (length (stratum t df)) (min (length (stratum t df)) 5000)) \<and>
              distinct (rng 42 (length (stratum t df)) (min (length (stratum t df)) 5000)) \<and>
              set (rng 42 (length (stratum t df)) (min (length (stratum t df)) 5000))
                \<subseteq> {..<length (stratum t df)} \<and>
              length (sample rng (stratum t df)) = min (length (stratum t df)) 5000 \<and>
              mset (sample rng (stratum t df)) \<subseteq># mset (stratum t df) \<and>
              (length (stratum t df) \<le> 5000 \<longrightarrow> mset (sample rng (stratum t df)) = mset (stratum t df)) \<and>
              (length (stratum t df) = 3000 \<longrightarrow> length (sample rng (stratum t df)) = 3000) \<and>
              (length (stratum t df) = 8000 \<longrightarrow> length (sample rng (stratum t df)) = 5000)) \<and>
         (\<forall>rng'. (\<forall>len n. rng' 42 len n = rng 42 len n) \<longrightarrow>
              compute_feature_distributions rng' df = compute_feature_distributions rng df)"
proof -
  have a: "compute_feature_distributions rng df
           = Inr (sample rng (stratum False df) @ sample rng (stratum True df))"
    by (rule distributions_eq [OF assms])
  have b: "mset (stratum False df) + mset (stratum True df) = mset (df_out df)"
    by (rule strata_partition)
  have c: "\<forall>t. sample rng (stratum t df)
                 = map (\<lambda>i. stratum t df ! i)
                     (rng 42 (length (stratum t df)) (min (length (stratum t df)) 5000)) \<and>
              distinct (rng 42 (length (stratum t df)) (min (length (stratum t df)) 5000)) \<and>
              set (rng 42 (length (stratum t df)) (min (length (stratum t df)) 5000))
                \<subseteq> {..<length (stratum t df)} \<and>
              length (sample rng (stratum t df)) = min (length (stratum t df)) 5000 \<and>
              mset (sample rng (stratum t df)) \<subseteq># mset (stratum t df) \<and>
              (length (stratum t df) \<le> 5000 \<longrightarrow> mset (sample rng (stratum t df)) = mset (stratum t df)) \<and>
              (length (stratum t df) = 3000 \<longrightarrow> length (sample rng (stratum t df)) = 3000) \<and>
              (length (stratum t df) = 8000 \<longrightarrow> length (sample rng (stratum t df)) = 5000)"
  proof
    fix t
    let ?g = "stratum t df"
    note p = positions_props [OF assms(1), of ?g, unfolded sample_positions_def]
    note q = sample_props [OF assms(1), of ?g]
    have 1: "sample rng ?g = map (\<lambda>i. ?g ! i) (rng 42 (length ?g) (min (length ?g) 5000))"
      by (simp add: sample_def sample_positions_def)
    have 2: "length ?g = 3000 \<longrightarrow> length (sample rng ?g) = 3000"
      using q by simp
    have 3: "length ?g = 8000 \<longrightarrow> length (sample rng ?g) = 5000"
      using q by simp
    from 1 2 3 p q
    show "sample rng ?g = map (\<lambda>i. ?g ! i) (rng 42 (length ?g) (min (length ?g) 5000)) \<and>
              distinct (rng 42 (length ?g) (min (length ?g) 5000)) \<and>
              set (rng 42 (length ?g) (min (length ?g) 5000)) \<subseteq> {..<length ?g} \<and>
              length (sample rng ?g) = min (length ?g) 5000 \<and>
              mset (sample rng ?g) \<subseteq># mset ?g \<and>
              (length ?g \<le> 5000 \<longrightarrow> mset (sample rng ?g) = mset ?g) \<and>
              (length ?g = 3000 \<longrightarrow> length (sample rng ?g) = 3000) \<and>
              (length ?g = 8000 \<longrightarrow> length (sample rng ?g) = 5000)"
      by blast
  qed
  have d: "\<forall>rng'. (\<forall>len n. rng' 42 len n = rng 42 len n) \<longrightarrow>
              compute_feature_distributions rng' df = compute_feature_distributions rng df"
  proof (intro allI impI)
    fix rng' :: "nat \<Rightarrow> nat \<Rightarrow> nat \<Rightarrow> nat list"
    assume "\<forall>len n. rng' 42 len n = rng 42 len n"
    then have "\<And>g::dist_row list. sample rng' g = sample rng g"
      by (rule sample_seed)
    then show "compute_feature_distributions rng' df = compute_feature_distributions rng df"
      by (simp add: compute_feature_distributions_def)
  qed
  from a b c d show ?thesis by blast
qed

theorem sampler_strata_witness:
  "valid_rng last_first_rng \<and> df_strata \<noteq> [] \<and> df_capped \<noteq> [] \<and>
   (\<exists>out. compute_feature_distributions last_first_rng df_strata = Inr out \<and>
      map s_year out = [2016, 2014, 2013]) \<and>
   (\<exists>out. compute_feature_distributions last_first_rng df_capped = Inr out \<and>
      length out = 5000 + 3000)"
proof -
  have n: "df_strata \<noteq> []" by (simp add: df_strata_def)
  have m: "df_capped \<noteq> []" by (simp add: df_capped_def)
  note s = sampler_strata [OF valid_last_first n]
  note c = sampler_strata [OF valid_last_first m]
  have e: "map s_year (sample last_first_rng (stratum False df_strata)
                        @ sample last_first_rng (stratum True df_strata)) = [2016, 2014, 2013]"
    by (simp add: sample_def sample_positions_def last_first_rng_def stratum_def df_out_def
        df_strata_def mk_loan_def TRAIN_YEARS_def upt_rec)
  have 1: "\<exists>out. compute_feature_distributions last_first_rng df_strata = Inr out \<and>
      map s_year out = [2016, 2014, 2013]"
    using s e by simp
  have l: "length (sample last_first_rng (stratum False df_capped)) = 5000 \<and>
           length (sample last_first_rng (stratum True df_capped)) = 3000"
  proof -
    from c have k: "\<And>t. length (sample last_first_rng (stratum t df_capped))
                     = min (length (stratum t df_capped)) 5000"
      by blast
    show ?thesis
      unfolding k using strata_capped by simp
  qed
  have 2: "\<exists>out. compute_feature_distributions last_first_rng df_capped = Inr out \<and>
      length out = 5000 + 3000"
    using c l by simp
  from valid_last_first n m 1 2 show ?thesis by blast
qed

text \<open>
  Claim C9 as stated, for every frame, fails: on a frame without rows there is no
  group, and \<^verbatim>\<open>pd.concat\<close> of line 209 raises \<^verbatim>\<open>ValueError\<close>.
\<close>

theorem sampler_empty_frame_counterexample:
  "\<forall>rng. compute_feature_distributions rng [] = Inl ValueError"
  by (simp add: compute_feature_distributions_def df_out_def groupby_def)

end
